theory Spec2Isabelle
  imports Main "HOL-Library.AList" "HOL-Library.Multiset"
    "HOL-Library.Char_ord" "HOL-Library.List_Lexorder"
begin

section \<open>Conventions shared by the three source files\<close>

text \<open>
  Go strings and byte slices are \<^typ>\<open>string\<close> (a list of 8-bit characters); Go's
  \<^verbatim>\<open><\<close> on strings and \<^verbatim>\<open>sort.Strings\<close> compare bytewise, which is the
  lexicographic order of \<^theory_text>\<open>List_Lexorder\<close> over \<^theory_text>\<open>Char_ord\<close>.

  A Go \<^verbatim>\<open>map\<close> is held as an association list with distinct keys.  The language
  leaves the order in which \<^verbatim>\<open>range\<close> enumerates a map unspecified (the runtime
  randomises it), so every \<^verbatim>\<open>range\<close> over a map whose order can reach the output
  takes the order from a parameter: \<open>rng k m\<close> is the enumeration the runtime
  picks for the \<open>k\<close>-th such loop of a run when the map holds the entries \<open>m\<close>.
  \<open>range_ok\<close> says that the enumeration visits every entry exactly once.
\<close>

type_synonym 'a go_range = "nat \<Rightarrow> 'a list \<Rightarrow> 'a list"

definition range_ok :: "'a go_range \<Rightarrow> bool" where
  "range_ok rng \<longleftrightarrow> (\<forall>k m. mset (rng k m) = mset m)"

text \<open>The verb \<^verbatim>\<open>%d\<close> of \<^verbatim>\<open>fmt\<close>: decimal digits, a minus sign for negatives.\<close>

definition digit_char :: "nat \<Rightarrow> char" where
  "digit_char d = char_of (48 + d)"

function dec_nat :: "nat \<Rightarrow> string" where
  "dec_nat n = (if n < 10 then [digit_char n] else dec_nat (n div 10) @ [digit_char (n mod 10)])"
  by pat_completeness auto
termination
  by (relation "measure id") auto

declare dec_nat.simps [simp del]

definition fmt_d :: "int \<Rightarrow> string" where
  "fmt_d i = (if i < 0 then CHR ''-'' # dec_nat (nat (- i)) else dec_nat (nat i))"

text \<open>
  \<^verbatim>\<open>fmt.Fprintf\<close> with a format string and no operands writes the string as it
  is when it has no \<^verbatim>\<open>%\<close>; what the library writes for a string with verbs and
  no operands is the parameter \<open>verbs\<close>.
\<close>

definition Fprintf_plain :: "(string \<Rightarrow> string) \<Rightarrow> string \<Rightarrow> string" where
  "Fprintf_plain verbs format = (if CHR ''%'' \<in> set format then verbs format else format)"

section \<open>newt/sysinit/sysinit.go\<close>

text \<open>
  Modelled from the spec: \<^verbatim>\<open>pkg.LocalPackage\<close> as \<^verbatim>\<open>sysinit.go\<close> uses it is not in
  the sources (the \<^verbatim>\<open>LocalPackage\<close> of the package file is an older one, whose
  \<^verbatim>\<open>Init\<close> is the constructor).  Only \<^verbatim>\<open>Name()\<close> and \<^verbatim>\<open>Init()\<close> are called; the
  latter returns a \<^verbatim>\<open>map[string]int\<close>, the package's declared
  (entry-point-name, stage-number) pairs.  A stage is a Go \<^verbatim>\<open>int\<close>; stages are
  compared and printed, never computed with, so they are integers here.
\<close>

record lpkg =
  Name :: string
  Init :: "(string \<times> int) list"

record initFunc =
  fn_stage :: int
  fn_name :: string
  fn_pkg :: lpkg

text \<open>\<^verbatim>\<open>map[int][]*initFunc\<close>; a missing key reads as the nil slice.\<close>

type_synonym stage_map = "(int \<times> initFunc list) list"

definition sm_get :: "stage_map \<Rightarrow> int \<Rightarrow> initFunc list" where
  "sm_get sm k = (case map_of sm k of None \<Rightarrow> [] | Some fs \<Rightarrow> fs)"

text \<open>\<^verbatim>\<open>sm[stage] = append(sm[stage], initFunc)\<close>\<close>

definition sm_append :: "initFunc \<Rightarrow> stage_map \<Rightarrow> stage_map" where
  "sm_append f sm = AList.update (fn_stage f) (sm_get sm (fn_stage f) @ [f]) sm"

definition mk_initFunc :: "lpkg \<Rightarrow> string \<times> int \<Rightarrow> initFunc" where
  "mk_initFunc p e = \<lparr>fn_stage = snd e, fn_name = fst e, fn_pkg = p\<rparr>"

text \<open>
  The outer loop of \<^verbatim>\<open>buildStageMap\<close>; \<open>k\<close> counts the \<^verbatim>\<open>range p.Init()\<close> loops
  run so far.
\<close>

fun buildStageMap_loop ::
  "(string \<times> int) go_range \<Rightarrow> nat \<Rightarrow> lpkg list \<Rightarrow> stage_map \<Rightarrow> stage_map" where
  "buildStageMap_loop rng k [] sm = sm"
| "buildStageMap_loop rng k (p # ps) sm =
     buildStageMap_loop rng (Suc k) ps
       (fold (\<lambda>e sm. sm_append (mk_initFunc p e) sm) (rng k (Init p)) sm)"

definition buildStageMap :: "(string \<times> int) go_range \<Rightarrow> lpkg list \<Rightarrow> stage_map" where
  "buildStageMap rng pkgs = buildStageMap_loop rng 0 pkgs []"

text \<open>
  Modelled from the spec: \<^verbatim>\<open>pkg.SortLclPkgs\<close> is not in the sources; the spec has
  the prototypes "sorted by owning-package name".  The sort is stable here; what
  is proved below holds for any order of the packages.
\<close>

definition SortLclPkgs :: "lpkg list \<Rightarrow> lpkg list" where
  "SortLclPkgs pkgs = sort_key Name pkgs"

definition prototype :: "string \<Rightarrow> string" where
  "prototype name = ''void '' @ name @ ''(void);\<newline>''"

fun writePrototypes_loop :: "(string \<times> int) go_range \<Rightarrow> nat \<Rightarrow> lpkg list \<Rightarrow> string" where
  "writePrototypes_loop rng k [] = []"
| "writePrototypes_loop rng k (p # ps) =
     concat (map (\<lambda>e. prototype (fst e)) (rng k (Init p))) @ writePrototypes_loop rng (Suc k) ps"

text \<open>
  \<^verbatim>\<open>writePrototypes\<close> runs after \<^verbatim>\<open>buildStageMap\<close>, which has used up one
  enumeration for each package.
\<close>

definition writePrototypes :: "(string \<times> int) go_range \<Rightarrow> lpkg list \<Rightarrow> string" where
  "writePrototypes rng pkgs = writePrototypes_loop rng (length pkgs) (SortLclPkgs pkgs)"

definition stage_comment :: "int \<Rightarrow> nat \<Rightarrow> initFunc \<Rightarrow> string" where
  "stage_comment stage i f =
     ''    /* '' @ fmt_d stage @ ''.'' @ dec_nat i @ '': '' @ Name (fn_pkg f) @ '' */\<newline>''"

definition stage_call :: "initFunc \<Rightarrow> string" where
  "stage_call f = ''    '' @ fn_name f @ ''();\<newline>''"

definition writeStage :: "int \<Rightarrow> initFunc list \<Rightarrow> string" where
  "writeStage stage initFuncs =
     ''    /*** Stage '' @ fmt_d stage @ '' */\<newline>'' @
     concat (map (\<lambda>(i, f). stage_comment stage i f @ stage_call f) (enumerate 0 initFuncs))"

text \<open>
  The keys of the stage map are collected by a \<^verbatim>\<open>range\<close> and then sorted by
  \<^verbatim>\<open>sort.Ints\<close>; the keys are distinct, so the sorted slice does not depend on the
  enumeration and the model sorts the keys as the association list holds them.
\<close>

definition stages_of :: "stage_map \<Rightarrow> int list" where
  "stages_of stageMap = sort (map fst stageMap)"

definition fn_body :: "stage_map \<Rightarrow> string" where
  "fn_body stageMap =
     concat (map (\<lambda>s. ''\<newline>'' @ writeStage s (sm_get stageMap s)) (stages_of stageMap))"

text \<open>
  \<^verbatim>\<open>newtutil.GeneratedPreamble()\<close> is not in the sources: its text is the parameter
  \<open>preamble\<close>, which the source hands to \<^verbatim>\<open>fmt.Fprintf\<close> as the format string.  The
  result is everything written to \<open>w\<close>.  (The source's name
  \<^verbatim>\<open>write\<close> is a command of the proof language, hence \<open>write_sysinit\<close>.)
\<close>

definition write_sysinit ::
  "(string \<Rightarrow> string) \<Rightarrow> (string \<times> int) go_range \<Rightarrow> string \<Rightarrow> lpkg list \<Rightarrow> bool \<Rightarrow>
   string" where
  "write_sysinit verbs rng preamble pkgs isLoader =
     (let stageMap = buildStageMap rng pkgs in
      Fprintf_plain verbs preamble @
      (if isLoader then ''#if SPLIT_LOADER\<newline>\<newline>'' else ''#if !SPLIT_LOADER\<newline>\<newline>'') @
      writePrototypes rng pkgs @
      ''\<newline>'' @
      ''void\<newline>'' @ (if isLoader then ''sysinit_loader'' else ''sysinit_app'') @ ''(void)\<newline>{\<newline>'' @
      fn_body stageMap @
      ''}\<newline>\<newline>'' @
      ''#endif\<newline>'')"

subsection \<open>The file system as \<^verbatim>\<open>EnsureWritten\<close> and \<^verbatim>\<open>Save\<close> see it\<close>

text \<open>
  The calls \<^verbatim>\<open>ioutil.ReadFile\<close>, \<^verbatim>\<open>os.MkdirAll\<close>, \<^verbatim>\<open>ioutil.WriteFile\<close> and
  \<^verbatim>\<open>os.Create\<close> belong to the Go library.  \<open>files\<close> holds the contents of the
  regular files by path; \<open>read_fails\<close>, \<open>mkdir_fails\<close> and \<open>write_fails\<close> give
  the paths on which the respective call fails for a reason other than absence
  (permissions, a directory in the way), with the error's text.  \<open>written\<close>
  records every path that was opened for writing, in order: a file is untouched
  by a call exactly when the call leaves the whole record unchanged.  A write
  that fails is taken to leave the file as it was.
\<close>

record filesys =
  files :: "string \<rightharpoonup> string"
  dirs :: "string set"
  read_fails :: "string \<rightharpoonup> string"
  mkdir_fails :: "string \<rightharpoonup> string"
  write_fails :: "string \<rightharpoonup> string"
  written :: "string list"
  stdout :: string

datatype read_error = NotExist | ReadError string

definition ReadFile :: "filesys \<Rightarrow> string \<Rightarrow> read_error + string" where
  "ReadFile fs path =
     (case read_fails fs path of
        Some e \<Rightarrow> Inl (ReadError e)
      | None \<Rightarrow> (case files fs path of None \<Rightarrow> Inl NotExist | Some c \<Rightarrow> Inr c))"

definition MkdirAll :: "filesys \<Rightarrow> string \<Rightarrow> string + filesys" where
  "MkdirAll fs d =
     (case mkdir_fails fs d of
        Some e \<Rightarrow> Inl e
      | None \<Rightarrow> Inr (fs\<lparr>dirs := insert d (dirs fs)\<rparr>))"

definition WriteFile :: "filesys \<Rightarrow> string \<Rightarrow> string \<Rightarrow> string + filesys" where
  "WriteFile fs path contents =
     (case write_fails fs path of
        Some e \<Rightarrow> Inl e
      | None \<Rightarrow> Inr (fs\<lparr>files := (files fs)(path \<mapsto> contents), written := written fs @ [path]\<rparr>))"

text \<open>The pair \<^verbatim>\<open>(bool, error)\<close>; \<^verbatim>\<open>bytes.Compare\<close> is zero exactly on equal slices.\<close>

definition writeRequired :: "filesys \<Rightarrow> string \<Rightarrow> string \<Rightarrow> bool \<times> string option" where
  "writeRequired fs contents path =
     (case ReadFile fs path of
        Inl NotExist \<Rightarrow> (True, None)
      | Inl (ReadError e) \<Rightarrow> (True, Some e)
      | Inr oldSrc \<Rightarrow> (oldSrc \<noteq> contents, None))"

definition sysinit_path :: "string \<Rightarrow> string \<Rightarrow> bool \<Rightarrow> string" where
  "sysinit_path srcDir targetName isLoader =
     (if isLoader then srcDir @ ''/'' @ targetName @ ''-sysinit-loader.c''
      else srcDir @ ''/'' @ targetName @ ''-sysinit-app.c'')"

text \<open>
  \<^verbatim>\<open>filepath.Dir\<close> is the library's and is the parameter \<open>Dir\<close>.  The result is
  the returned error (\<open>None\<close> for \<^verbatim>\<open>nil\<close>) and the file system after the call;
  the two debug log lines are not part of it.
\<close>

definition EnsureWritten ::
  "(string \<Rightarrow> string) \<Rightarrow> (string \<times> int) go_range \<Rightarrow> string \<Rightarrow> (string \<Rightarrow> string) \<Rightarrow>
   filesys \<Rightarrow> lpkg list \<Rightarrow> string \<Rightarrow> string \<Rightarrow> bool \<Rightarrow> string option \<times> filesys" where
  "EnsureWritten verbs rng preamble Dir fs pkgs srcDir targetName isLoader =
     (let buf = write_sysinit verbs rng preamble pkgs isLoader;
          path = sysinit_path srcDir targetName isLoader
      in case writeRequired fs buf path of
           (writeReqd, Some err) \<Rightarrow> (Some err, fs)
         | (writeReqd, None) \<Rightarrow>
             if \<not> writeReqd then (None, fs)
             else (case MkdirAll fs (Dir path) of
                     Inl e \<Rightarrow> (Some e, fs)
                   | Inr fs1 \<Rightarrow>
                       (case WriteFile fs1 path buf of
                          Inl e \<Rightarrow> (Some e, fs1)
                        | Inr fs2 \<Rightarrow> (None, fs2))))"

subsection \<open>Auxiliary notions for the stage map\<close>

text \<open>
  The entries a run of \<^verbatim>\<open>buildStageMap\<close> appends, in the order it appends them,
  and the entries the packages declare (\<open>registered\<close>), in the order in which
  the packages and their maps hold them.
\<close>

fun stage_entries :: "(string \<times> int) go_range \<Rightarrow> nat \<Rightarrow> lpkg list \<Rightarrow> initFunc list" where
  "stage_entries rng k [] = []"
| "stage_entries rng k (p # ps) =
     map (mk_initFunc p) (rng k (Init p)) @ stage_entries rng (Suc k) ps"

definition registered :: "lpkg list \<Rightarrow> initFunc list" where
  "registered pkgs = concat (map (\<lambda>p. map (mk_initFunc p) (Init p)) pkgs)"

text \<open>The packages of the spec's scenario, and a package with two entry points.\<close>

definition pkgA :: lpkg where
  "pkgA = \<lparr>Name = ''A'', Init = [(''a_init'', 10)]\<rparr>"

definition pkgB :: lpkg where
  "pkgB = \<lparr>Name = ''B'', Init = [(''b_init'', 20)]\<rparr>"

definition pkgTwo :: lpkg where
  "pkgTwo = \<lparr>Name = ''p'', Init = [(''a_init'', 1), (''b_init'', 1)]\<rparr>"

text \<open>An empty file system, and the one the first run of the scenario leaves.\<close>

definition fs_empty :: filesys where
  "fs_empty = \<lparr>files = Map.empty, dirs = {}, read_fails = Map.empty, mkdir_fails = Map.empty,
          write_fails = Map.empty, written = [], stdout = []\<rparr>"


section \<open>The local package file (\<^verbatim>\<open>src/unnamed/part_001\<close>, package \<^verbatim>\<open>pkg\<close>)\<close>

text \<open>
  A call that can panic (a nil pointer is dereferenced) returns an \<open>outcome\<close>.
\<close>

datatype 'a outcome = Returns 'a | Panics

text \<open>\<^verbatim>\<open>map[string]bool\<close>: a missing key reads as \<^verbatim>\<open>false\<close>.\<close>

definition PackageHashIgnoreDirs :: "string \<Rightarrow> bool" where
  "PackageHashIgnoreDirs n \<longleftrightarrow> n = ''obj'' \<or> n = ''bin'' \<or> n = ''.''"

definition LocalPackageSpecialNames :: "string \<Rightarrow> bool" where
  "LocalPackageSpecialNames n \<longleftrightarrow> n = ''src'' \<or> n = ''include'' \<or> n = ''bin''"

text \<open>
  Modelled from the spec: \<^verbatim>\<open>PACKAGE_FILE_NAME\<close> is declared outside the sources; the
  command file calls the descriptor \<^verbatim>\<open>pkg.yml\<close>, and \<^verbatim>\<open>Load\<close> trims \<^verbatim>\<open>.yml\<close> from it.
\<close>

definition PACKAGE_FILE_NAME :: string where
  "PACKAGE_FILE_NAME = ''pkg.yml''"

definition HasPrefix :: "string \<Rightarrow> string \<Rightarrow> bool" where
  "HasPrefix s p \<longleftrightarrow> take (length p) s = p"

definition TrimSuffix :: "string \<Rightarrow> string \<Rightarrow> string" where
  "TrimSuffix s suf =
     (if length suf \<le> length s \<and> drop (length s - length suf) s = suf
      then take (length s - length suf) s else s)"

subsection \<open>The data\<close>

text \<open>
  \<^verbatim>\<open>repo.Repo\<close>, \<^verbatim>\<open>PackageDesc\<close>, \<^verbatim>\<open>Version\<close>, \<^verbatim>\<open>PackageType\<close> and the configuration
  reader \<^verbatim>\<open>viper.Viper\<close> are declared outside the sources.  Of a repository only
  the field \<^verbatim>\<open>Name\<close> is read; a description has the four fields \<^verbatim>\<open>readDesc\<close>
  fills; a configuration is what its two accessors return; a version is a value
  of a type parameter \<open>'v\<close>; a package type is an integer constant.  Pointers
  that can be nil are options.  The dependency and API slices, which none of
  the functions below reads, are left out.
\<close>

record Repo =
  repoName :: string

record PackageDesc =
  Author :: string
  Homepage :: string
  Description :: string
  Keywords :: "string list"

record Viper =
  GetString :: "string \<Rightarrow> string"
  GetStringSlice :: "string \<Rightarrow> string list"

record 'v LocalPackage =
  repo :: "Repo option"
  name :: string
  basePath :: string
  packageType :: int
  desc :: "PackageDesc option"
  vers :: "'v option"
  PkgViper :: "Viper option"

text \<open>
  What the package file uses and does not declare: \<^verbatim>\<open>util.ReadConfig\<close> (the
  configuration found under a path and a file name, or an error),
  \<^verbatim>\<open>LoadVersion\<close> (the pair it returns), \<^verbatim>\<open>Version.String\<close>, the table
  \<^verbatim>\<open>PackageTypeNames\<close> (a Go map, held as the list of its entries in the order
  in which the loop of \<^verbatim>\<open>Load\<close> enumerates them), the constant
  \<^verbatim>\<open>PACKAGE_TYPE_LIB\<close>, \<^verbatim>\<open>filepath.Clean\<close>, and the text of the error
  \<^verbatim>\<open>ioutil.ReadDir\<close> returns for a path at which a file lies (\<open>ReadDirError\<close>).
\<close>

record 'v pkg_env =
  ReadConfig :: "string \<Rightarrow> string \<Rightarrow> string + Viper"
  LoadVersion :: "string \<Rightarrow> 'v option \<times> string option"
  VersionString :: "'v \<Rightarrow> string"
  PackageTypeNames :: "(int \<times> string) list"
  PACKAGE_TYPE_LIB :: int
  Clean :: "string \<Rightarrow> string"
  ReadDirError :: "string \<Rightarrow> string"

text \<open>The zero value \<^verbatim>\<open>&LocalPackage{}\<close>.\<close>

definition zero_LocalPackage :: "'v LocalPackage" where
  "zero_LocalPackage =
     \<lparr>repo = None, name = [], basePath = [], packageType = 0, desc = None, vers = None,
      PkgViper = None\<rparr>"

subsection \<open>The directory tree\<close>

text \<open>
  What \<^verbatim>\<open>filepath.Walk\<close> and \<^verbatim>\<open>ioutil.ReadDir\<close> find under a path: a file with
  its name and what \<^verbatim>\<open>ioutil.ReadFile\<close> returns for it (an error text or the
  contents), or a directory with its name, the error of listing it (if any) and
  its entries in the order in which the library lists them (by name).
\<close>

datatype node =
  File string "string + string"
| Directory string "string option" "node list"

fun node_name :: "node \<Rightarrow> string" where
  "node_name (File n c) = n"
| "node_name (Directory n e ents) = n"

fun IsDir :: "node \<Rightarrow> bool" where
  "IsDir (File n c) = False"
| "IsDir (Directory n e ents) = True"

subsection \<open>\<^verbatim>\<open>Hash\<close>\<close>

text \<open>
  What the callback of \<^verbatim>\<open>Hash\<close> returns: \<^verbatim>\<open>nil\<close>, \<^verbatim>\<open>filepath.SkipDir\<close> or the error
  of \<^verbatim>\<open>ioutil.ReadFile\<close>.  The second component is the sequence of bytes written
  to the hash so far.
\<close>

datatype walk_status = Continue | SkipDir | Failed string

definition hash_walkFn :: "node \<Rightarrow> string \<Rightarrow> walk_status \<times> string" where
  "hash_walkFn n acc =
     (if PackageHashIgnoreDirs (node_name n) then (SkipDir, acc)
      else (case n of
              Directory nm e ents \<Rightarrow> (Continue, acc @ nm)
            | File nm (Inl err) \<Rightarrow> (Failed err, acc)
            | File nm (Inr contents) \<Rightarrow> (Continue, acc @ contents)))"

text \<open>
  \<^verbatim>\<open>filepath.Walk\<close> of the Go library, for entries whose \<^verbatim>\<open>Lstat\<close> succeeds: the
  callback is called once on every node it reaches; \<^verbatim>\<open>SkipDir\<close> from a directory
  skips its contents, \<^verbatim>\<open>SkipDir\<close> from a file skips the rest of the directory the
  file is in; a directory that cannot be listed is handed to the callback with
  the error, which this callback does not look at, and its contents are not
  walked.
\<close>

fun walk :: "node \<Rightarrow> string \<Rightarrow> walk_status \<times> string"
  and walk_names :: "node list \<Rightarrow> string \<Rightarrow> walk_status \<times> string" where
  "walk (File nm c) acc = hash_walkFn (File nm c) acc"
| "walk (Directory nm e ents) acc =
     (case hash_walkFn (Directory nm e ents) acc of
        (Continue, acc1) \<Rightarrow>
          (case e of
             Some err \<Rightarrow> (Continue, acc1)
           | None \<Rightarrow> walk_names ents acc1)
      | (SkipDir, acc1) \<Rightarrow> (Continue, acc1)
      | (Failed err, acc1) \<Rightarrow> (Failed err, acc1))"
| "walk_names [] acc = (Continue, acc)"
| "walk_names (n # ns) acc =
     (case walk n acc of
        (Continue, acc1) \<Rightarrow> walk_names ns acc1
      | (SkipDir, acc1) \<Rightarrow> (if IsDir n then walk_names ns acc1 else (SkipDir, acc1))
      | (Failed err, acc1) \<Rightarrow> (Failed err, acc1))"

text \<open>
  \<open>sha1hex\<close> stands for \<^verbatim>\<open>fmt.Sprintf("%x", ...)\<close> of the SHA-1 sum of the bytes
  written.  \<open>root\<close> is what lies at \<^verbatim>\<open>pkg.basePath\<close>; when nothing does, the callback
  is called with a nil \<^verbatim>\<open>FileInfo\<close> and panics on \<^verbatim>\<open>info.Name()\<close>.  The result
  is the pair \<^verbatim>\<open>(string, error)\<close>.
\<close>

definition Hash :: "(string \<Rightarrow> string) \<Rightarrow> node option \<Rightarrow> (string \<times> string option) outcome" where
  "Hash sha1hex root =
     (case root of
        None \<Rightarrow> Panics
      | Some n \<Rightarrow>
          (case walk n [] of
             (Failed err, acc) \<Rightarrow> Returns ([], Some err)
           | (st, acc) \<Rightarrow> Returns (sha1hex acc, None)))"

subsection \<open>\<^verbatim>\<open>Init\<close>, \<^verbatim>\<open>Load\<close> and \<^verbatim>\<open>LoadLocalPackage\<close>\<close>

definition readDesc :: "Viper \<Rightarrow> PackageDesc \<times> string option" where
  "readDesc v =
     (\<lparr>Author = GetString v ''pkg.author'',
       Homepage = GetString v ''pkg.homepage'',
       Description = GetString v ''pkg.description'',
       Keywords = GetStringSlice v ''pkg.keywords''\<rparr>, None)"

text \<open>The method \<^verbatim>\<open>Init(repo, pkgDir)\<close> of the package file.\<close>

definition LocalPackage_Init ::
  "'v pkg_env \<Rightarrow> Repo option \<Rightarrow> string \<Rightarrow> 'v LocalPackage \<Rightarrow> 'v LocalPackage" where
  "LocalPackage_Init env r pkgDir pkg = pkg\<lparr>repo := r, basePath := Clean env pkgDir @ ''/''\<rparr>"

text \<open>
  The loop of \<^verbatim>\<open>Load\<close> over \<^verbatim>\<open>PackageTypeNames\<close>: the type starts as
  \<^verbatim>\<open>PACKAGE_TYPE_LIB\<close> and the first entry whose name equals the string sets it
  and ends the loop.
\<close>

fun type_of_name :: "int \<Rightarrow> (int \<times> string) list \<Rightarrow> string \<Rightarrow> int" where
  "type_of_name lib [] typeString = lib"
| "type_of_name lib ((t, n) # rest) typeString =
     (if typeString = n then t else type_of_name lib rest typeString)"

text \<open>
  \<^verbatim>\<open>Load\<close> returns the error and the package as the call leaves it (the receiver
  is updated in place, also when an error is returned).
\<close>

definition Load :: "'v pkg_env \<Rightarrow> 'v LocalPackage \<Rightarrow> string option \<times> 'v LocalPackage" where
  "Load env pkg =
     (case ReadConfig env (basePath pkg) (TrimSuffix PACKAGE_FILE_NAME ''.yml'') of
        Inl err \<Rightarrow> (Some err, pkg)
      | Inr v \<Rightarrow>
          (let pkg1 = pkg\<lparr>PkgViper := Some v,
                          name := GetString v ''pkg.name'',
                          packageType :=
                            type_of_name (PACKAGE_TYPE_LIB env) (PackageTypeNames env)
                              (GetString v ''pkg.type'')\<rparr>;
               (ver, verr) = LoadVersion env (GetString v ''pkg.vers'');
               pkg2 = pkg1\<lparr>vers := ver\<rparr>
           in case verr of
                Some err \<Rightarrow> (Some err, pkg2)
              | None \<Rightarrow>
                  (let (pdesc, derr) = readDesc v;
                       pkg3 = pkg2\<lparr>desc := Some pdesc\<rparr>
                   in case derr of
                        Some err \<Rightarrow> (Some err, pkg3)
                      | None \<Rightarrow> (None, pkg3))))"

text \<open>The pair \<^verbatim>\<open>(pkg, err)\<close>.\<close>

definition LoadLocalPackage ::
  "'v pkg_env \<Rightarrow> Repo option \<Rightarrow> string \<Rightarrow> 'v LocalPackage \<times> string option" where
  "LoadLocalPackage env r pkgDir =
     (case Load env (LocalPackage_Init env r pkgDir zero_LocalPackage) of
        (err, pkg) \<Rightarrow> (pkg, err))"

subsection \<open>\<^verbatim>\<open>Save\<close>\<close>

text \<open>
  The lines \<^verbatim>\<open>Save\<close> writes, one element for each call of \<^verbatim>\<open>WriteString\<close>;
  \<open>None\<close> where computing the argument dereferences a nil pointer.
\<close>

definition save_lines :: "'v pkg_env \<Rightarrow> 'v LocalPackage \<Rightarrow> string option list" where
  "save_lines env pkg =
     [Some (''### Package: '' @ name pkg @ ''\<newline>\<newline>''),
      Some (''pkg.name: '' @ name pkg @ ''\<newline>''),
      map_option (\<lambda>v. ''pkg.vers: '' @ VersionString env v @ ''\<newline>'') (vers pkg),
      Some (''pkg.type: '' @
            (case map_of (PackageTypeNames env) (packageType pkg) of None \<Rightarrow> [] | Some n \<Rightarrow> n) @
            ''\<newline>''),
      map_option (\<lambda>d. ''pkg.description: '' @ Description d @ ''\<newline>'') (desc pkg),
      map_option (\<lambda>d. ''pkg.author: '' @ Author d @ ''\<newline>'') (desc pkg),
      map_option (\<lambda>d. ''pkg.homepage: '' @ Homepage d @ ''\<newline>'') (desc pkg),
      map_option (\<lambda>r. ''pkg.repository: '' @ repoName r @ ''\<newline>'') (repo pkg)]"

text \<open>What reaches the file before the first panic, and whether there is one.\<close>

fun write_strings :: "string option list \<Rightarrow> string \<times> bool" where
  "write_strings [] = ([], False)"
| "write_strings (None # rest) = ([], True)"
| "write_strings (Some s # rest) = (case write_strings rest of (t, p) \<Rightarrow> (s @ t, p))"

text \<open>
  \<^verbatim>\<open>os.Create\<close> fails on the paths of \<open>write_fails\<close>.  The source drops the
  results of \<^verbatim>\<open>WriteString\<close>; each write is taken to succeed.
\<close>

definition Save :: "'v pkg_env \<Rightarrow> 'v LocalPackage \<Rightarrow> filesys \<Rightarrow> string option outcome \<times> filesys" where
  "Save env pkg fs =
     (let dirpath = basePath pkg in
      case MkdirAll fs dirpath of
        Inl err \<Rightarrow> (Returns (Some err), fs)
      | Inr fs1 \<Rightarrow>
          (let filepath = dirpath @ ''/'' @ PACKAGE_FILE_NAME;
               fs2 = fs1\<lparr>stdout := stdout fs1 @ ''filepath='' @ filepath @ ''\<newline>''\<rparr>
           in case write_fails fs2 filepath of
                Some err \<Rightarrow> (Returns (Some err), fs2)
              | None \<Rightarrow>
                  (case write_strings (save_lines env pkg) of
                     (contents, panicked) \<Rightarrow>
                       (if panicked then Panics else Returns None,
                        fs2\<lparr>files := (files fs2)(filepath \<mapsto> contents),
                            written := written fs2 @ [filepath]\<rparr>))))"

subsection \<open>Discovery\<close>

definition LocalPackageSpecialName :: "string \<Rightarrow> bool" where
  "LocalPackageSpecialName dirName = LocalPackageSpecialNames dirName"

text \<open>
  \<^verbatim>\<open>cli.NodeNotExist\<close> on the descriptor of a directory: no entry of the directory
  has the descriptor's name.
\<close>

definition descriptor_absent :: "node list \<Rightarrow> bool" where
  "descriptor_absent dirList \<longleftrightarrow> PACKAGE_FILE_NAME \<notin> set (map node_name dirList)"

type_synonym 'v pkg_list = "string \<rightharpoonup> 'v LocalPackage"

text \<open>
  \<^verbatim>\<open>ReadLocalPackageRecursive\<close>: the last argument is what lies at
  \<^verbatim>\<open>basePath + "/" + pkgName\<close> (the parameter \<^verbatim>\<open>basePath\<close> is \<open>base\<close> here, the
  name being a field of the package record).  \<^verbatim>\<open>ioutil.ReadDir\<close> fails on a file
  and on a directory that cannot be listed.  The map is updated in place, so the
  result is the error together with the map as the call leaves it.
  \<open>read_entries\<close> is the loop over the directory's entries.
\<close>

fun ReadLocalPackageRecursive ::
    "'v pkg_env \<Rightarrow> Repo option \<Rightarrow> 'v pkg_list \<Rightarrow> string \<Rightarrow> string \<Rightarrow> node \<Rightarrow>
     string option \<times> 'v pkg_list"
  and read_entries ::
    "'v pkg_env \<Rightarrow> Repo option \<Rightarrow> 'v pkg_list \<Rightarrow> string \<Rightarrow> string \<Rightarrow> node list \<Rightarrow>
     string option \<times> 'v pkg_list" where
  "ReadLocalPackageRecursive env r pkgList base pkgName (File nm c) =
     (Some (ReadDirError env (base @ ''/'' @ pkgName)), pkgList)"
| "ReadLocalPackageRecursive env r pkgList base pkgName (Directory nm (Some err) dirList) =
     (Some err, pkgList)"
| "ReadLocalPackageRecursive env r pkgList base pkgName (Directory nm None dirList) =
     (case read_entries env r pkgList base pkgName dirList of
        (Some err, pkgList1) \<Rightarrow> (Some err, pkgList1)
      | (None, pkgList1) \<Rightarrow>
          if descriptor_absent dirList then (None, pkgList1)
          else (case LoadLocalPackage env r (base @ ''/'' @ pkgName) of
                  (pkg, Some err) \<Rightarrow> (Some err, pkgList1)
                | (pkg, None) \<Rightarrow> (None, pkgList1(name pkg \<mapsto> pkg))))"
| "read_entries env r pkgList base pkgName [] = (None, pkgList)"
| "read_entries env r pkgList base pkgName (dirEnt # rest) =
     (if \<not> IsDir dirEnt then read_entries env r pkgList base pkgName rest
      else if LocalPackageSpecialName (node_name dirEnt) \<or> HasPrefix (node_name dirEnt) ''.''
      then read_entries env r pkgList base pkgName rest
      else (case ReadLocalPackageRecursive env r pkgList base
                   (pkgName @ ''/'' @ node_name dirEnt) dirEnt of
              (Some err, pkgList1) \<Rightarrow> (Some err, pkgList1)
            | (None, pkgList1) \<Rightarrow> read_entries env r pkgList1 base pkgName rest))"

text \<open>
  \<^verbatim>\<open>ReadLocalPackages\<close>: \<open>fsys\<close> gives what lies at a path (\<open>None\<close>: nothing, so
  \<^verbatim>\<open>cli.NodeNotExist\<close> holds).  \<open>read_subdirs\<close> is the inner loop, over the entries
  of one search path, \<open>read_paths\<close> the outer one.  The result is the error or
  the map.
\<close>

fun read_subdirs ::
    "'v pkg_env \<Rightarrow> Repo option \<Rightarrow> 'v pkg_list \<Rightarrow> string \<Rightarrow> node list \<Rightarrow>
     string option \<times> 'v pkg_list" where
  "read_subdirs env r pkgList pkgDir [] = (None, pkgList)"
| "read_subdirs env r pkgList pkgDir (subDir # rest) =
     (if HasPrefix (node_name subDir) ''.'' \<or> HasPrefix (node_name subDir) ''..''
      then read_subdirs env r pkgList pkgDir rest
      else if \<not> IsDir subDir then read_subdirs env r pkgList pkgDir rest
      else (case ReadLocalPackageRecursive env r pkgList pkgDir (node_name subDir) subDir of
              (Some err, pkgList1) \<Rightarrow> (Some err, pkgList1)
            | (None, pkgList1) \<Rightarrow> read_subdirs env r pkgList1 pkgDir rest))"

fun read_paths ::
    "'v pkg_env \<Rightarrow> Repo option \<Rightarrow> (string \<Rightarrow> node option) \<Rightarrow> 'v pkg_list \<Rightarrow> string \<Rightarrow>
     string list \<Rightarrow> string + 'v pkg_list" where
  "read_paths env r fsys pkgList base [] = Inr pkgList"
| "read_paths env r fsys pkgList base (path # rest) =
     (let pkgDir = base @ ''/'' @ path in
      case fsys pkgDir of
        None \<Rightarrow> read_paths env r fsys pkgList base rest
      | Some (File nm c) \<Rightarrow> Inl (ReadDirError env pkgDir)
      | Some (Directory nm (Some err) dirList) \<Rightarrow> Inl err
      | Some (Directory nm None dirList) \<Rightarrow>
          (case read_subdirs env r pkgList pkgDir dirList of
             (Some err, pkgList1) \<Rightarrow> Inl err
           | (None, pkgList1) \<Rightarrow> read_paths env r fsys pkgList1 base rest))"

definition ReadLocalPackages ::
  "'v pkg_env \<Rightarrow> Repo option \<Rightarrow> (string \<Rightarrow> node option) \<Rightarrow> string \<Rightarrow> string list \<Rightarrow>
   string + 'v pkg_list" where
  "ReadLocalPackages env r fsys base searchPaths =
     read_paths env r fsys Map.empty base searchPaths"

subsection \<open>Auxiliary notions for the package file\<close>

text \<open>A descriptor's lines: each field name, a colon and a blank, the value, a newline.\<close>

definition render_fields :: "(string \<times> string) list \<Rightarrow> string" where
  "render_fields kvs = concat (map (\<lambda>(k, v). k @ '': '' @ v @ ''\<newline>'') kvs)"

text \<open>
  The directories a successful run of \<^verbatim>\<open>ReadLocalPackageRecursive\<close> loads, in the
  order in which it loads them: first those found below each entry that is a
  directory, is not one of the special names and is not hidden, entry by entry,
  then the directory itself when it has a descriptor.
\<close>

definition enters :: "node \<Rightarrow> bool" where
  "enters e \<longleftrightarrow>
     IsDir e \<and> \<not> LocalPackageSpecialName (node_name e) \<and> \<not> HasPrefix (node_name e) ''.''"

fun loaded_dirs :: "string \<Rightarrow> node \<Rightarrow> string list"
  and loaded_below :: "string \<Rightarrow> node list \<Rightarrow> string list" where
  "loaded_dirs path (File nm c) = []"
| "loaded_dirs path (Directory nm e dirList) =
     loaded_below path dirList @ (if descriptor_absent dirList then [] else [path])"
| "loaded_below path [] = []"
| "loaded_below path (d # ds) =
     (if enters d then loaded_dirs (path @ ''/'' @ node_name d) d else []) @ loaded_below path ds"

text \<open>
  The directories a successful run of \<^verbatim>\<open>ReadLocalPackages\<close> loads: below every
  entry of a search path that is a directory and is not hidden (the special
  names are not skipped at this level).
\<close>

definition top_enters :: "node \<Rightarrow> bool" where
  "top_enters e \<longleftrightarrow> IsDir e \<and> \<not> HasPrefix (node_name e) ''.''"

definition loaded_in_path :: "(string \<Rightarrow> node option) \<Rightarrow> string \<Rightarrow> string list" where
  "loaded_in_path fsys pkgDir =
     (case fsys pkgDir of
        Some (Directory nm e dirList) \<Rightarrow>
          concat (map (\<lambda>d. loaded_dirs (pkgDir @ ''/'' @ node_name d) d) (filter top_enters dirList))
      | _ \<Rightarrow> [])"

definition discovered :: "(string \<Rightarrow> node option) \<Rightarrow> string \<Rightarrow> string list \<Rightarrow> string list" where
  "discovered fsys base searchPaths =
     concat (map (\<lambda>path. loaded_in_path fsys (base @ ''/'' @ path)) searchPaths)"

text \<open>Adding the package loaded from a directory to the map, as line 312 of the source does.\<close>

definition add_loaded :: "'v pkg_env \<Rightarrow> Repo option \<Rightarrow> string \<Rightarrow> 'v pkg_list \<Rightarrow> 'v pkg_list" where
  "add_loaded env r d pkgList =
     pkgList(name (fst (LoadLocalPackage env r d)) \<mapsto> fst (LoadLocalPackage env r d))"

text \<open>
  The bytes \<^verbatim>\<open>Hash\<close> feeds to the digest for a \<open>regular\<close> tree: one in which no
  file has an ignored name, every file can be read and every directory that is
  not ignored can be listed.
\<close>

fun fed :: "node \<Rightarrow> string"
  and fed_list :: "node list \<Rightarrow> string" where
  "fed (File nm c) = (case c of Inl err \<Rightarrow> [] | Inr contents \<Rightarrow> contents)"
| "fed (Directory nm e ents) = (if PackageHashIgnoreDirs nm then [] else nm @ fed_list ents)"
| "fed_list [] = []"
| "fed_list (n # ns) = fed n @ fed_list ns"

fun regular :: "node \<Rightarrow> bool"
  and regular_list :: "node list \<Rightarrow> bool" where
  "regular (File nm c) = (\<not> PackageHashIgnoreDirs nm \<and> (case c of Inl err \<Rightarrow> False | Inr contents \<Rightarrow> True))"
| "regular (Directory nm e ents) = (PackageHashIgnoreDirs nm \<or> (e = None \<and> regular_list ents))"
| "regular_list [] = True"
| "regular_list (n # ns) = (regular n \<and> regular_list ns)"

definition hash_tree :: node where
  "hash_tree =
     Directory ''p'' None
       [Directory ''bin'' None [File ''p.elf'' (Inr ''ELF'')],
        File ''pkg.yml'' (Inr ''pkg.name: p''),
        Directory ''src'' None [File ''p.c'' (Inr ''int x;'')]]"

text \<open>
  What a run needs in order to return no error: every directory it enters can
  be listed.  (The packages it loads must load as well; that is said where it
  is used.)
\<close>

fun traversable :: "node \<Rightarrow> bool"
  and traversable_below :: "node list \<Rightarrow> bool" where
  "traversable (File nm c) = False"
| "traversable (Directory nm e dirList) = (e = None \<and> traversable_below dirList)"
| "traversable_below [] = True"
| "traversable_below (d # ds) = ((if enters d then traversable d else True) \<and> traversable_below ds)"

definition top_traversable :: "(string \<Rightarrow> node option) \<Rightarrow> string \<Rightarrow> bool" where
  "top_traversable fsys pkgDir =
     (case fsys pkgDir of
        None \<Rightarrow> True
      | Some (File nm c) \<Rightarrow> False
      | Some (Directory nm e dirList) \<Rightarrow> e = None \<and> list_all traversable (filter top_enters dirList))"

text \<open>The base path of the package a result holds under a name, if any.\<close>

definition found_at :: "string + 'v pkg_list \<Rightarrow> string \<Rightarrow> string option" where
  "found_at res n = (case res of Inl err \<Rightarrow> None | Inr m \<Rightarrow> map_option basePath (m n))"

text \<open>
  A package tree: two packages \<open>a\<close> and \<open>b\<close> that both declare the name \<open>dup\<close>, a
  package in a directory \<open>bin\<close> of the search path, and a package \<open>outer\<close> with
  a package \<open>inner\<close> in a subdirectory and another descriptor below its \<open>src\<close>.
\<close>

definition scenario_viper :: "string \<Rightarrow> string \<Rightarrow> Viper" where
  "scenario_viper nm ty =
     \<lparr>GetString = (\<lambda>k. if k = ''pkg.name'' then nm
                        else if k = ''pkg.type'' then ty
                        else if k = ''pkg.vers'' then ''0.0.0'' else []),
      GetStringSlice = (\<lambda>k. [])\<rparr>"

definition scenario_env :: "unit pkg_env" where
  "scenario_env =
     \<lparr>ReadConfig = (\<lambda>path nm.
         if nm \<noteq> ''pkg'' then Inl ''no such file''
         else if path = ''/r/pkgs/a/'' then Inr (scenario_viper ''dup'' ''gadget'')
         else if path = ''/r/pkgs/b/'' then Inr (scenario_viper ''dup'' ''bsp'')
         else if path = ''/r/pkgs/bin/'' then Inr (scenario_viper ''tools'' ''lib'')
         else if path = ''/r/pkgs/outer/'' then Inr (scenario_viper ''outer'' ''app'')
         else if path = ''/r/pkgs/outer/inner/'' then Inr (scenario_viper ''inner'' ''lib'')
         else Inl ''no such file''),
      LoadVersion = (\<lambda>s. (Some (), None)),
      VersionString = (\<lambda>v. ''0.0.0''),
      PackageTypeNames = [(0, ''lib''), (1, ''bsp''), (2, ''app'')],
      PACKAGE_TYPE_LIB = 0,
      Clean = (\<lambda>p. p),
      ReadDirError = (\<lambda>p. ''readdirent: not a directory'')\<rparr>"

definition descriptor_file :: node where
  "descriptor_file = File ''pkg.yml'' (Inr [])"

definition scenario_tree :: node where
  "scenario_tree =
     Directory ''pkgs'' None
       [Directory ''a'' None [descriptor_file],
        Directory ''b'' None [descriptor_file],
        Directory ''bin'' None [descriptor_file],
        Directory ''outer'' None
          [Directory ''inner'' None [descriptor_file],
           descriptor_file,
           Directory ''src'' None [Directory ''x'' None [descriptor_file]]]]"

definition scenario_fsys :: "string \<Rightarrow> node option" where
  "scenario_fsys path = (if path = ''/r/pkgs'' then Some scenario_tree else None)"

section \<open>The target commands (\<^verbatim>\<open>src/unnamed/part_000\<close>, package \<^verbatim>\<open>cli\<close>)\<close>

text \<open>
  Modelled from the spec: the package \<^verbatim>\<open>syscfg\<close> is not in the sources.  A
  setting (\<^verbatim>\<open>CfgEntry\<close>) has a name, a description, the effective value and
  "an ordered history of contributions where history[0] is the unconditioned
  default and each subsequent entry records (contributing-package,
  value-at-that-point)"; the field names are the ones \<^verbatim>\<open>printSetting\<close> reads
  (\<open>pointValue\<close> and the \<open>entry\<close> fields are \<^verbatim>\<open>Value\<close>, \<^verbatim>\<open>Name\<close>, \<^verbatim>\<open>Description\<close>
  in the source).  A configuration (\<^verbatim>\<open>Cfg\<close>) has the map \<^verbatim>\<open>Settings\<close> and the
  text \<^verbatim>\<open>ErrorText()\<close> returns.
\<close>

record CfgPoint =
  pointValue :: string
  Source :: lpkg

record CfgEntry =
  entryName :: string
  entryDescription :: string
  entryValue :: string
  History :: "CfgPoint list"

record Cfg =
  Settings :: "string \<rightharpoonup> CfgEntry"
  ErrorText :: string

text \<open>\<^verbatim>\<open>cfg.Settings[name]\<close>: a missing key reads as the zero entry.\<close>

definition setting :: "Cfg \<Rightarrow> string \<Rightarrow> CfgEntry" where
  "setting cfg n =
     (case Settings cfg n of
        None \<Rightarrow> \<lparr>entryName = [], entryDescription = [], entryValue = [], History = []\<rparr>
      | Some e \<Rightarrow> e)"

text \<open>
  The functions return the text they hand to \<^verbatim>\<open>util.StatusMessage\<close> at the
  default verbosity.  \<open>override_line\<close> is the conditional at the end of
  \<^verbatim>\<open>printSetting\<close>; its loop runs over the indices \<open>1, \<dots>, len - 1\<close>.
\<close>

definition override_line :: "CfgEntry \<Rightarrow> string" where
  "override_line entry =
     (if length (History entry) > 1
      then ''    * Overridden: '' @
           concat (map (\<lambda>i. Name (Source (History entry ! i)) @ '', '') [1 ..< length (History entry)]) @
           ''default='' @ pointValue (History entry ! 0) @ ''\<newline>''
      else [])"

definition printSetting :: "CfgEntry \<Rightarrow> string" where
  "printSetting entry =
     ''  * Setting: '' @ entryName entry @ ''\<newline>'' @
     ''    * Description: '' @ entryDescription entry @ ''\<newline>'' @
     ''    * Value: '' @ entryValue entry @
     ''\<newline>'' @
     override_line entry"

definition settingNames :: "CfgEntry list \<Rightarrow> string list" where
  "settingNames entries = sort (map entryName entries)"

definition printPkgCfg :: "string \<Rightarrow> Cfg \<Rightarrow> CfgEntry list \<Rightarrow> string" where
  "printPkgCfg pkgName cfg entries =
     ''* PACKAGE: '' @ pkgName @ ''\<newline>'' @
     concat (map (\<lambda>n. printSetting (setting cfg n)) (settingNames entries))"

text \<open>
  \<^verbatim>\<open>syscfg.EntriesByPkg\<close> is not in the sources and is a parameter; the map it
  returns is an association list.  Its keys are collected by a \<^verbatim>\<open>range\<close> and
  sorted by \<^verbatim>\<open>sort.Strings\<close>, so the list of package names does not depend on the
  enumeration.  \<^verbatim>\<open>pkgNameEntryMap[pkgName]\<close> is \<open>entries_of\<close>.
\<close>

definition pkgNames_of :: "(string \<times> CfgEntry list) list \<Rightarrow> string list" where
  "pkgNames_of pkgNameEntryMap = sort (map fst pkgNameEntryMap)"

definition entries_of :: "(string \<times> CfgEntry list) list \<Rightarrow> string \<Rightarrow> CfgEntry list" where
  "entries_of pkgNameEntryMap pkgName =
     (case map_of pkgNameEntryMap pkgName of None \<Rightarrow> [] | Some es \<Rightarrow> es)"

definition error_banner :: "Cfg \<Rightarrow> string" where
  "error_banner cfg =
     (if ErrorText cfg \<noteq> [] then ''!!! '' @ ErrorText cfg @ ''\<newline>\<newline>'' else [])"

definition printCfg ::
  "(Cfg \<Rightarrow> (string \<times> CfgEntry list) list) \<Rightarrow> string \<Rightarrow> Cfg \<Rightarrow> string" where
  "printCfg EntriesByPkg targetName cfg =
     (let pkgNameEntryMap = EntriesByPkg cfg in
      error_banner cfg @
      ''Syscfg for '' @ targetName @ '':\<newline>'' @
      concat (map (\<lambda>(i, pkgName).
                (if i > 0 then ''\<newline>'' else []) @
                printPkgCfg pkgName cfg (entries_of pkgNameEntryMap pkgName))
              (enumerate 0 (pkgNames_of pkgNameEntryMap))))"

definition yamlPkgCfg :: "string \<Rightarrow> Cfg \<Rightarrow> CfgEntry list \<Rightarrow> string" where
  "yamlPkgCfg pkgName cfg entries =
     ''    ### '' @ pkgName @ ''\<newline>'' @
     concat (map (\<lambda>n. ''    '' @ n @ '': '' @ [CHR 0x27] @ entryValue (setting cfg n) @ [CHR 0x27] @ ''\<newline>'')
              (settingNames entries))"

text \<open>The status text and the returned string.\<close>

definition yamlCfg ::
  "(Cfg \<Rightarrow> (string \<times> CfgEntry list) list) \<Rightarrow> Cfg \<Rightarrow> string \<times> string" where
  "yamlCfg EntriesByPkg cfg =
     (let pkgNameEntryMap = EntriesByPkg cfg in
      (error_banner cfg,
       ''syscfg.vals:\<newline>'' @
       concat (map (\<lambda>(i, pkgName).
                 (if i > 0 then ''\<newline>'' else []) @
                 yamlPkgCfg pkgName cfg (entries_of pkgNameEntryMap pkgName))
               (enumerate 0 (pkgNames_of pkgNameEntryMap)))))"

subsection \<open>Scenarios for the package file and the target commands\<close>

text \<open>A package as \<^verbatim>\<open>LoadLocalPackage\<close> initialises it, before \<^verbatim>\<open>Load\<close>.\<close>

definition pkg_at :: "string \<Rightarrow> unit LocalPackage" where
  "pkg_at d = LocalPackage_Init scenario_env None d zero_LocalPackage"

text \<open>
  The text of a descriptor: the comment line, then the seven fields in the
  order in which \<^verbatim>\<open>Save\<close> writes them.
\<close>

definition descriptor_text ::
  "'v pkg_env \<Rightarrow> 'v LocalPackage \<Rightarrow> 'v \<Rightarrow> PackageDesc \<Rightarrow> Repo \<Rightarrow> string" where
  "descriptor_text env pkg v d r =
     ''### Package: '' @ name pkg @ ''\<newline>\<newline>'' @
     render_fields
       [(''pkg.name'', name pkg),
        (''pkg.vers'', VersionString env v),
        (''pkg.type'', case map_of (PackageTypeNames env) (packageType pkg) of None \<Rightarrow> [] | Some n \<Rightarrow> n),
        (''pkg.description'', Description d),
        (''pkg.author'', Author d),
        (''pkg.homepage'', Homepage d),
        (''pkg.repository'', repoName r)]"

definition scenario_pkg :: "unit LocalPackage" where
  "scenario_pkg =
     \<lparr>repo = Some \<lparr>repoName = ''local''\<rparr>, name = ''libs/x'', basePath = ''libs/x/'',
      packageType = 2,
      desc = Some \<lparr>Author = ''me'', Homepage = ''http://x'', Description = ''an x'', Keywords = []\<rparr>,
      vers = Some (), PkgViper = None\<rparr>"

text \<open>A setting with the default and one override, and a configuration of three settings.\<close>

definition entry_once :: CfgEntry where
  "entry_once =
     \<lparr>entryName = ''LOG_LEVEL'', entryDescription = ''level'', entryValue = ''1'',
      History = [\<lparr>pointValue = ''0'', Source = \<lparr>Name = ''sys/log'', Init = []\<rparr>\<rparr>,
                 \<lparr>pointValue = ''1'', Source = \<lparr>Name = ''apps/blinky'', Init = []\<rparr>\<rparr>]\<rparr>"

definition entry_of :: "string \<Rightarrow> string \<Rightarrow> string \<Rightarrow> CfgEntry" where
  "entry_of n v p =
     \<lparr>entryName = n, entryDescription = [], entryValue = v,
      History = [\<lparr>pointValue = v, Source = \<lparr>Name = p, Init = []\<rparr>\<rparr>]\<rparr>"

definition scenario_groups :: "(string \<times> CfgEntry list) list" where
  "scenario_groups =
     [(''sys/log'', [entry_of ''LOG_LEVEL'' ''1'' ''sys/log'', entry_of ''LOG_CLI'' ''0'' ''sys/log'']),
      (''sys/console'', [entry_of ''CONSOLE_BAUD'' ''115200'' ''sys/console''])]"

definition scenario_cfg :: Cfg where
  "scenario_cfg =
     \<lparr>Settings = map_of
        [(''LOG_LEVEL'', entry_of ''LOG_LEVEL'' ''1'' ''sys/log''),
         (''LOG_CLI'', entry_of ''LOG_CLI'' ''0'' ''sys/log''),
         (''CONSOLE_BAUD'', entry_of ''CONSOLE_BAUD'' ''115200'' ''sys/console'')],
      ErrorText = []\<rparr>"

chapter \<open>Properties\<close>

section \<open>Properties of \<^verbatim>\<open>sysinit.go\<close>\<close>

subsection \<open>The stage map is a fold over the appended entries\<close>

lemma buildStageMap_loop_fold:
  "buildStageMap_loop rng k ps sm = fold sm_append (stage_entries rng k ps) sm"
  by (induction ps arbitrary: k sm) (simp_all add: fold_map comp_def)

lemma sm_get_append:
  "sm_get (sm_append f sm) s = (if fn_stage f = s then sm_get sm s @ [f] else sm_get sm s)"
  by (simp add: sm_get_def sm_append_def update_conv')

lemma sm_get_fold:
  "sm_get (fold sm_append fs sm) s = sm_get sm s @ filter (\<lambda>f. fn_stage f = s) fs"
  by (induction fs arbitrary: sm) (simp_all add: sm_get_append)

lemma keys_sm_append:
  "set (map fst (sm_append f sm)) = insert (fn_stage f) (set (map fst sm))"
  using dom_update[of "fn_stage f" _ sm] by (simp add: sm_append_def)

lemma keys_fold:
  "set (map fst (fold sm_append fs sm)) = set (map fst sm) \<union> fn_stage ` set fs"
  by (induction fs arbitrary: sm) (auto simp: keys_sm_append simp del: set_map)

lemma distinct_fold:
  "distinct (map fst sm) \<Longrightarrow> distinct (map fst (fold sm_append fs sm))"
  by (induction fs arbitrary: sm) (simp_all add: sm_append_def distinct_update)

lemma mset_stage_entries:
  "range_ok rng \<Longrightarrow>
   mset (stage_entries rng k ps) = mset (concat (map (\<lambda>p. map (mk_initFunc p) (Init p)) ps))"
proof (induction ps arbitrary: k)
  case Nil then show ?case by simp
next
  case (Cons p ps)
  have "mset (map (mk_initFunc p) (rng k (Init p))) = mset (map (mk_initFunc p) (Init p))"
    using Cons.prems by (simp add: range_ok_def)
  then show ?case using Cons by simp
qed

lemma concat_map_split:
  "x \<in> set xs \<Longrightarrow> \<exists>a b. concat (map g xs) = a @ g x @ b"
proof -
  assume "x \<in> set xs"
  then obtain ys zs where "xs = ys @ x # zs" by (auto dest: split_list)
  then have "concat (map g xs) = concat (map g ys) @ g x @ concat (map g zs)" by simp
  then show ?thesis by blast
qed

lemma writeStage_lists:
  assumes "f \<in> set fs"
  shows "\<exists>i a b. writeStage s fs = a @ stage_comment s i f @ stage_call f @ b"
proof -
  from assms obtain i where i: "i < length fs" "fs ! i = f" by (auto simp: in_set_conv_nth)
  then have "(i, f) \<in> set (enumerate 0 fs)" by (auto simp: in_set_enumerate_eq)
  from concat_map_split[OF this, of "\<lambda>(i, f). stage_comment s i f @ stage_call f"]
  obtain a b where
    "concat (map (\<lambda>(i, f). stage_comment s i f @ stage_call f) (enumerate 0 fs)) =
      a @ (stage_comment s i f @ stage_call f) @ b" by auto
  then have "writeStage s fs =
      (''    /*** Stage '' @ fmt_d s @ '' */\<newline>'' @ a) @ stage_comment s i f @ stage_call f @ b"
    by (simp add: writeStage_def)
  then show ?thesis by blast
qed

lemma sorted_two_split:
  assumes "sorted xs" "a \<in> set xs" "b \<in> set xs" "(a::int) < b"
  shows "\<exists>A B C. xs = A @ a # B @ b # C"
proof -
  from assms(2) obtain A R where xs: "xs = A @ a # R" by (auto dest: split_list)
  have "b \<notin> set A"
  proof
    assume "b \<in> set A"
    with assms(1) xs have "b \<le> a" by (auto simp: sorted_append)
    with assms(4) show False by simp
  qed
  with assms(3,4) xs have "b \<in> set R" by auto
  then obtain B C where "R = B @ b # C" by (auto dest: split_list)
  with xs show ?thesis by auto
qed

lemma fn_body_two_calls:
  assumes "s1 \<in> set (stages_of sm)" "s2 \<in> set (stages_of sm)" "s1 < s2"
    and "f1 \<in> set (sm_get sm s1)" "f2 \<in> set (sm_get sm s2)"
  shows "\<exists>a b c i j. fn_body sm =
     a @ stage_comment s1 i f1 @ stage_call f1 @ b @ stage_comment s2 j f2 @ stage_call f2 @ c"
proof -
  have "sorted (stages_of sm)" by (simp add: stages_of_def)
  from sorted_two_split[OF this assms(1,2,3)]
  obtain A B C where st: "stages_of sm = A @ s1 # B @ s2 # C" by blast
  let ?g = "\<lambda>s. ''\<newline>'' @ writeStage s (sm_get sm s)"
  obtain i a1 b1 where w1: "writeStage s1 (sm_get sm s1) = a1 @ stage_comment s1 i f1 @ stage_call f1 @ b1"
    using writeStage_lists[OF assms(4)] by blast
  obtain j a2 b2 where w2: "writeStage s2 (sm_get sm s2) = a2 @ stage_comment s2 j f2 @ stage_call f2 @ b2"
    using writeStage_lists[OF assms(5)] by blast
  have "fn_body sm = concat (map ?g A) @ ?g s1 @ concat (map ?g B) @ ?g s2 @ concat (map ?g C)"
    by (simp add: fn_body_def st)
  then have "fn_body sm = (concat (map ?g A) @ ''\<newline>'' @ a1) @ stage_comment s1 i f1 @ stage_call f1 @
      (b1 @ concat (map ?g B) @ ''\<newline>'' @ a2) @ stage_comment s2 j f2 @ stage_call f2 @ (b2 @ concat (map ?g C))"
    by (simp add: w1 w2)
  then show ?thesis by blast
qed

lemma writePrototypes_loop_has:
  "range_ok rng \<Longrightarrow> p \<in> set ps \<Longrightarrow> e \<in> set (Init p) \<Longrightarrow>
   \<exists>a b. writePrototypes_loop rng k ps = a @ prototype (fst e) @ b"
proof (induction ps arbitrary: k)
  case Nil then show ?case by simp
next
  case (Cons q ps)
  show ?case
  proof (cases "p = q")
    case True
    have "set (rng k (Init q)) = set (Init q)"
      using Cons.prems(1) by (metis range_ok_def set_mset_mset)
    with Cons.prems(3) True have "e \<in> set (rng k (Init q))" by simp
    from concat_map_split[OF this, of "\<lambda>e. prototype (fst e)"]
    obtain a b where "concat (map (\<lambda>e. prototype (fst e)) (rng k (Init q))) = a @ prototype (fst e) @ b"
      by blast
    then have "writePrototypes_loop rng k (q # ps) = a @ prototype (fst e) @ (b @ writePrototypes_loop rng (Suc k) ps)"
      by simp
    then show ?thesis by blast
  next
    case False
    with Cons.prems have "p \<in> set ps" by simp
    from Cons.IH[OF Cons.prems(1) this Cons.prems(3)]
    obtain a b where "writePrototypes_loop rng (Suc k) ps = a @ prototype (fst e) @ b" by blast
    then have "writePrototypes_loop rng k (q # ps) =
       (concat (map (\<lambda>e. prototype (fst e)) (rng k (Init q))) @ a) @ prototype (fst e) @ b" by simp
    then show ?thesis by blast
  qed
qed

lemma writePrototypes_has:
  "range_ok rng \<Longrightarrow> p \<in> set pkgs \<Longrightarrow> e \<in> set (Init p) \<Longrightarrow>
   \<exists>a b. writePrototypes rng pkgs = a @ prototype (fst e) @ b"
  unfolding writePrototypes_def SortLclPkgs_def
  by (rule writePrototypes_loop_has) simp_all

lemma sm_get_buildStageMap:
  "sm_get (buildStageMap rng pkgs) s = filter (\<lambda>f. fn_stage f = s) (stage_entries rng 0 pkgs)"
  using sm_get_fold[of "stage_entries rng 0 pkgs" "[]" s]
  by (simp add: buildStageMap_def buildStageMap_loop_fold) (simp add: sm_get_def)

lemma distinct_stages_of_buildStageMap: "distinct (stages_of (buildStageMap rng pkgs))"
  using distinct_fold[of "[]" "stage_entries rng 0 pkgs"]
  by (simp add: stages_of_def buildStageMap_def buildStageMap_loop_fold)

subsection \<open>Stage blocks in ascending order\<close>

lemma writePrototypes_loop_enumerate:
  "writePrototypes_loop rng k ps =
     concat (map (\<lambda>(j, p). concat (map (\<lambda>e. prototype (fst e)) (rng j (Init p)))) (enumerate k ps))"
  by (induction ps arbitrary: k) simp_all

lemma enumerate_shift:
  "enumerate (n + k) xs = map (\<lambda>(j, p). (n + j, p)) (enumerate k xs)"
  by (induction xs arbitrary: k) (simp_all flip: add_Suc_right)

lemma writePrototypes_enumerate:
  "writePrototypes rng pkgs =
     concat (map (\<lambda>(j, p). concat (map (\<lambda>e. ''void '' @ fst e @ ''(void);\<newline>'') (rng (length pkgs + j) (Init p))))
               (enumerate 0 (sort_key Name pkgs)))"
  using enumerate_shift[of "length pkgs" 0 "sort_key Name pkgs"]
  by (simp add: writePrototypes_def SortLclPkgs_def writePrototypes_loop_enumerate prototype_def
      comp_def case_prod_unfold)

lemma registered_at_stage:
  "filter (\<lambda>f. fn_stage f = s) (registered pkgs) =
     concat (map (\<lambda>p. map (\<lambda>e. \<lparr>fn_stage = snd e, fn_name = fst e, fn_pkg = p\<rparr>)
                          (filter (\<lambda>e. snd e = s) (Init p))) pkgs)"
  by (induction pkgs) (simp_all add: registered_def mk_initFunc_def filter_map comp_def)

lemma fn_body_text:
  "fn_body sm =
     concat (map (\<lambda>s. ''\<newline>'' @ ''    /*** Stage '' @ fmt_d s @ '' */\<newline>'' @
                   concat (map (\<lambda>(i, f).
                             ''    /* '' @ fmt_d s @ ''.'' @ dec_nat i @ '': '' @ Name (fn_pkg f) @ '' */\<newline>'' @
                             ''    '' @ fn_name f @ ''();\<newline>'')
                           (enumerate 0 (sm_get sm s))))
              (stages_of sm))"
  by (simp add: fn_body_def writeStage_def stage_comment_def stage_call_def)

text \<open>
  Claim C5.  Whatever orders the runtime picks for the map enumerations, the
  generated text is: the preamble as \<^verbatim>\<open>fmt.Fprintf\<close> writes it, the guard, the
  prototype lines of the packages in the order of their names, an empty line,
  the function header, the function body and the footer.  The body is, for each
  key \<open>s\<close> of the stage map in the order \<open>stages_of\<close>, an empty line, the comment
  line \<^verbatim>\<open>/*** Stage s */\<close> and then, for the \<open>i\<close>-th entry of the stage (counted
  from 0), the comment line \<^verbatim>\<open>/* s.i: \<close>\<open>owning package\<close>\<^verbatim>\<open> */\<close> and the call line of the
  entry point.  \<open>stages_of\<close> is strictly ascending and holds exactly the stages
  at which some package registers an entry point, so each registered stage gets
  exactly one block.  The entries of a stage are the entry points registered at
  it, each with its package, each once.  For every registered entry point its
  block has the comment with the name of its package followed by its call; an
  entry point registered at a smaller stage is called earlier in the body than
  one registered at a larger stage; and every registered entry point has its
  prototype line.  The last two conjuncts say what \<^verbatim>\<open>%d\<close> writes.
\<close>

theorem write_sysinit_stage_blocks:
  assumes "range_ok rng"
  shows "(let sm = buildStageMap rng pkgs;
              entry = (\<lambda>s i p n.
                ''    /* '' @ fmt_d s @ ''.'' @ dec_nat i @ '': '' @ Name p @ '' */\<newline>'' @
                ''    '' @ n @ ''();\<newline>'');
              block = (\<lambda>s.
                ''    /*** Stage '' @ fmt_d s @ '' */\<newline>'' @
                concat (map (\<lambda>(i, f). entry s i (fn_pkg f) (fn_name f)) (enumerate 0 (sm_get sm s))));
              body = concat (map (\<lambda>s. ''\<newline>'' @ block s) (stages_of sm));
              protos = concat (map (\<lambda>(j, p).
                         concat (map (\<lambda>e. ''void '' @ fst e @ ''(void);\<newline>'')
                                   (rng (length pkgs + j) (Init p))))
                       (enumerate 0 (sort_key Name pkgs)))
          in
     write_sysinit verbs rng preamble pkgs isLoader =
       (if CHR ''%'' \<in> set preamble then verbs preamble else preamble) @
       (if isLoader then ''#if SPLIT_LOADER\<newline>\<newline>'' else ''#if !SPLIT_LOADER\<newline>\<newline>'') @
       protos @ ''\<newline>'' @
       ''void\<newline>'' @ (if isLoader then ''sysinit_loader'' else ''sysinit_app'') @ ''(void)\<newline>{\<newline>'' @
       body @
       ''}\<newline>\<newline>'' @ ''#endif\<newline>'' \<and>
     sorted (stages_of sm) \<and> distinct (stages_of sm) \<and>
     set (stages_of sm) = {s. \<exists>p \<in> set pkgs. \<exists>n. (n, s) \<in> set (Init p)} \<and>
     (\<forall>s. mset (sm_get sm s) =
          mset (concat (map (\<lambda>p. map (\<lambda>e. \<lparr>fn_stage = snd e, fn_name = fst e, fn_pkg = p\<rparr>)
                                     (filter (\<lambda>e. snd e = s) (Init p))) pkgs))) \<and>
     (\<forall>p \<in> set pkgs. \<forall>e \<in> set (Init p). \<exists>i a b.
        block (snd e) = a @ entry (snd e) i p (fst e) @ b) \<and>
     (\<forall>p \<in> set pkgs. \<forall>e \<in> set (Init p). \<forall>q \<in> set pkgs. \<forall>d \<in> set (Init q). snd e < snd d \<longrightarrow>
        (\<exists>a b c i j. body = a @ entry (snd e) i p (fst e) @ b @ entry (snd d) j q (fst d) @ c)) \<and>
     (\<forall>p \<in> set pkgs. \<forall>e \<in> set (Init p). \<exists>a b.
        protos = a @ ''void '' @ fst e @ ''(void);\<newline>'' @ b) \<and>
     (\<forall>i. fmt_d i = (if i < 0 then CHR ''-'' # dec_nat (nat (- i)) else dec_nat (nat i))) \<and>
     (\<forall>n. dec_nat n =
        (if n < 10 then [char_of (48 + n)] else dec_nat (n div 10) @ [char_of (48 + n mod 10)])))"
proof -
  define sm where "sm = buildStageMap rng pkgs"
  let ?entry = "\<lambda>s i p n.
                ''    /* '' @ fmt_d s @ ''.'' @ dec_nat i @ '': '' @ Name p @ '' */\<newline>'' @
                ''    '' @ n @ ''();\<newline>''"
  let ?block = "\<lambda>s.
                ''    /*** Stage '' @ fmt_d s @ '' */\<newline>'' @
                concat (map (\<lambda>(i, f). ?entry s i (fn_pkg f) (fn_name f)) (enumerate 0 (sm_get sm s)))"
  let ?body = "concat (map (\<lambda>s. ''\<newline>'' @ ?block s) (stages_of sm))"
  let ?protos = "concat (map (\<lambda>(j, p).
                         concat (map (\<lambda>e. ''void '' @ fst e @ ''(void);\<newline>'')
                                   (rng (length pkgs + j) (Init p))))
                       (enumerate 0 (sort_key Name pkgs)))"
  have ms: "mset (stage_entries rng 0 pkgs) = mset (registered pkgs)"
    using mset_stage_entries[OF assms] by (simp add: registered_def)
  then have st: "set (stage_entries rng 0 pkgs) = set (registered pkgs)"
    by (metis set_mset_mset)
  have get: "\<And>s. sm_get sm s = filter (\<lambda>f. fn_stage f = s) (stage_entries rng 0 pkgs)"
    by (simp add: sm_def sm_get_buildStageMap)
  have keys: "set (stages_of sm) = fn_stage ` set (registered pkgs)"
    using keys_fold[of "stage_entries rng 0 pkgs" "[]"] st
    by (simp add: sm_def stages_of_def buildStageMap_def buildStageMap_loop_fold)
  have reg: "\<And>p e. p \<in> set pkgs \<Longrightarrow> e \<in> set (Init p) \<Longrightarrow> mk_initFunc p e \<in> set (registered pkgs)"
    by (auto simp: registered_def)
  have mem: "\<And>f. f \<in> set (registered pkgs) \<Longrightarrow> f \<in> set (sm_get sm (fn_stage f))"
    by (simp add: get st)
  have fld: "\<And>p e. fn_stage (mk_initFunc p e) = snd e" "\<And>p e. fn_name (mk_initFunc p e) = fst e"
    "\<And>p e. fn_pkg (mk_initFunc p e) = p"
    by (simp_all add: mk_initFunc_def)
  have etext: "\<And>s i p e. stage_comment s i (mk_initFunc p e) @ stage_call (mk_initFunc p e) = ?entry s i p (fst e)"
    by (simp add: stage_comment_def stage_call_def fld)
  have blk: "\<And>s. writeStage s (sm_get sm s) = ?block s"
    by (simp add: writeStage_def stage_comment_def stage_call_def)
  have bdy: "fn_body sm = ?body"
    by (simp add: fn_body_def blk)
  have c1: "write_sysinit verbs rng preamble pkgs isLoader =
       (if CHR ''%'' \<in> set preamble then verbs preamble else preamble) @
       (if isLoader then ''#if SPLIT_LOADER\<newline>\<newline>'' else ''#if !SPLIT_LOADER\<newline>\<newline>'') @
       ?protos @ ''\<newline>'' @
       ''void\<newline>'' @ (if isLoader then ''sysinit_loader'' else ''sysinit_app'') @ ''(void)\<newline>{\<newline>'' @
       ?body @
       ''}\<newline>\<newline>'' @ ''#endif\<newline>''"
    unfolding write_sysinit_def Let_def sm_def[symmetric] bdy writePrototypes_enumerate Fprintf_plain_def
    by simp
  have c2: "sorted (stages_of sm)" by (simp add: stages_of_def)
  have c3: "distinct (stages_of sm)" by (simp add: sm_def distinct_stages_of_buildStageMap)
  have c4: "set (stages_of sm) = {s. \<exists>p \<in> set pkgs. \<exists>n. (n, s) \<in> set (Init p)}"
    unfolding keys by (force simp: registered_def mk_initFunc_def)
  have c5: "\<forall>s. mset (sm_get sm s) =
          mset (concat (map (\<lambda>p. map (\<lambda>e. \<lparr>fn_stage = snd e, fn_name = fst e, fn_pkg = p\<rparr>)
                                     (filter (\<lambda>e. snd e = s) (Init p))) pkgs))"
    unfolding registered_at_stage[symmetric] by (simp add: get ms)
  have c6: "\<forall>p \<in> set pkgs. \<forall>e \<in> set (Init p). \<exists>i a b.
        ?block (snd e) = a @ ?entry (snd e) i p (fst e) @ b"
  proof (intro ballI)
    fix p e assume p: "p \<in> set pkgs" and e: "e \<in> set (Init p)"
    from mem[OF reg[OF p e]] have "mk_initFunc p e \<in> set (sm_get sm (snd e))" by (simp add: fld)
    from writeStage_lists[OF this, of "snd e"] obtain i a b where
      "writeStage (snd e) (sm_get sm (snd e)) =
         a @ (stage_comment (snd e) i (mk_initFunc p e) @ stage_call (mk_initFunc p e)) @ b"
      by auto
    then have "?block (snd e) = a @ ?entry (snd e) i p (fst e) @ b"
      unfolding blk etext by simp
    then show "\<exists>i a b. ?block (snd e) = a @ ?entry (snd e) i p (fst e) @ b" by blast
  qed
  have c7: "\<forall>p \<in> set pkgs. \<forall>e \<in> set (Init p). \<forall>q \<in> set pkgs. \<forall>d \<in> set (Init q). snd e < snd d \<longrightarrow>
        (\<exists>a b c i j. ?body = a @ ?entry (snd e) i p (fst e) @ b @ ?entry (snd d) j q (fst d) @ c)"
  proof (intro ballI impI)
    fix p e q d assume p: "p \<in> set pkgs" and e: "e \<in> set (Init p)"
      and q: "q \<in> set pkgs" and d: "d \<in> set (Init q)" and lt: "snd e < snd d"
    let ?f = "mk_initFunc p e" and ?g = "mk_initFunc q d"
    have f: "?f \<in> set (sm_get sm (snd e))" using mem[OF reg[OF p e]] by (simp add: fld)
    have g: "?g \<in> set (sm_get sm (snd d))" using mem[OF reg[OF q d]] by (simp add: fld)
    have "(fst e, snd e) \<in> set (Init p)" "(fst d, snd d) \<in> set (Init q)"
      using e d by simp_all
    with p q have "snd e \<in> set (stages_of sm)" "snd d \<in> set (stages_of sm)"
      unfolding c4 by blast+
    from fn_body_two_calls[OF this lt f g] obtain a b c i j where
      "fn_body sm = a @ (stage_comment (snd e) i ?f @ stage_call ?f) @ b @
         (stage_comment (snd d) j ?g @ stage_call ?g) @ c"
      by auto
    then have "?body = a @ ?entry (snd e) i p (fst e) @ b @ ?entry (snd d) j q (fst d) @ c"
      unfolding bdy etext by simp
    then show "\<exists>a b c i j. ?body = a @ ?entry (snd e) i p (fst e) @ b @ ?entry (snd d) j q (fst d) @ c"
      by blast
  qed
  have c8: "\<forall>p \<in> set pkgs. \<forall>e \<in> set (Init p). \<exists>a b.
        ?protos = a @ ''void '' @ fst e @ ''(void);\<newline>'' @ b"
  proof (intro ballI)
    fix p e assume p: "p \<in> set pkgs" and e: "e \<in> set (Init p)"
    from writePrototypes_has[OF assms p e] obtain a b where
      "writePrototypes rng pkgs = a @ prototype (fst e) @ b" by blast
    then have "?protos = a @ ''void '' @ fst e @ ''(void);\<newline>'' @ b"
      unfolding writePrototypes_enumerate prototype_def by simp
    then show "\<exists>a b. ?protos = a @ ''void '' @ fst e @ ''(void);\<newline>'' @ b" by blast
  qed
  have c9: "\<forall>i. fmt_d i = (if i < 0 then CHR ''-'' # dec_nat (nat (- i)) else dec_nat (nat i))"
    by (simp add: fmt_d_def)
  have c10: "\<forall>n. dec_nat n =
        (if n < 10 then [char_of (48 + n)] else dec_nat (n div 10) @ [char_of (48 + n mod 10)])"
  proof
    fix n show "dec_nat n =
        (if n < 10 then [char_of (48 + n)] else dec_nat (n div 10) @ [char_of (48 + n mod 10)])"
      by (subst dec_nat.simps) (simp add: digit_char_def)
  qed
  show ?thesis
    unfolding Let_def sm_def[symmetric]
    by (intro conjI) (rule c1 c2 c3 c4 c5 c6 c7 c8 c9 c10)+
qed

text \<open>
  The scenario of the spec: \<open>A\<close> registers \<open>a_init\<close> at stage 10 and \<open>B\<close>
  registers \<open>b_init\<close> at stage 20; the packages are passed in the other order.
\<close>

theorem write_sysinit_stage_blocks_witness:
  "range_ok (\<lambda>k m. m :: (string \<times> int) list) \<and>
   stages_of (buildStageMap (\<lambda>k m. m) [pkgB, pkgA]) = [10, 20] \<and>
   (\<exists>a b c i j. fn_body (buildStageMap (\<lambda>k m. m) [pkgB, pkgA]) =
      a @ ''    /* 10.'' @ dec_nat i @ '': A */\<newline>    a_init();\<newline>'' @ b @
      ''    /* 20.'' @ dec_nat j @ '': B */\<newline>    b_init();\<newline>'' @ c) \<and>
   (\<exists>a b. writePrototypes (\<lambda>k m. m) [pkgB, pkgA] = a @ ''void a_init(void);\<newline>'' @ b) \<and>
   (\<exists>a b. writePrototypes (\<lambda>k m. m) [pkgB, pkgA] = a @ ''void b_init(void);\<newline>'' @ b) \<and>
   write_sysinit (\<lambda>s. s) (\<lambda>k m. m) ''P'' [pkgB, pkgA] False =
     ''P#if !SPLIT_LOADER\<newline>\<newline>void a_init(void);\<newline>void b_init(void);\<newline>\<newline>void\<newline>sysinit_app(void)\<newline>{\<newline>\<newline>    /*** Stage 10 */\<newline>    /* 10.0: A */\<newline>    a_init();\<newline>\<newline>    /*** Stage 20 */\<newline>    /* 20.0: B */\<newline>    b_init();\<newline>}\<newline>\<newline>#endif\<newline>''"
proof -
  have ok: "range_ok (\<lambda>k m. m :: (string \<times> int) list)" by (simp add: range_ok_def)
  let ?sm = "buildStageMap (\<lambda>k m. m) [pkgB, pkgA]"
  let ?ea = "(''a_init'', 10 :: int)" and ?eb = "(''b_init'', 20 :: int)"
  note th = write_sysinit_stage_blocks[OF ok, where pkgs = "[pkgB, pkgA]" and verbs = "\<lambda>s. s"
      and preamble = "''P''" and isLoader = False, unfolded Let_def]
  note t1 = th[THEN conjunct2]
  note t3 = t1[THEN conjunct2, THEN conjunct2]
  note t6 = t3[THEN conjunct2, THEN conjunct2, THEN conjunct2]
  have ma: "pkgA \<in> set [pkgB, pkgA]" "?ea \<in> set (Init pkgA)"
    and mb: "pkgB \<in> set [pkgB, pkgA]" "?eb \<in> set (Init pkgB)"
    by (simp_all add: pkgA_def pkgB_def)
  have num: "fmt_d 10 = ''10''" "fmt_d 20 = ''20''" by code_simp+
  have nm: "Name pkgA = ''A''" "Name pkgB = ''B''" by (simp_all add: pkgA_def pkgB_def)
  have st: "stages_of ?sm = [10, 20]"
  proof -
    have "sorted (stages_of ?sm)" by (rule t1[THEN conjunct1])
    moreover have "distinct (stages_of ?sm)" by (rule t1[THEN conjunct2, THEN conjunct1])
    moreover have "set (stages_of ?sm) = set [10, 20]"
      unfolding t3[THEN conjunct1] by (auto simp: pkgA_def pkgB_def)
    moreover have "sorted [10, 20::int]" "distinct [10, 20::int]" by simp_all
    ultimately show ?thesis by (metis sorted_distinct_set_unique)
  qed
  have lt: "snd ?ea < snd ?eb" by simp
  from t6[THEN conjunct1, rule_format, OF ma mb lt]
  have body: "\<exists>a b c i j. fn_body ?sm =
      a @ ''    /* 10.'' @ dec_nat i @ '': A */\<newline>    a_init();\<newline>'' @ b @
      ''    /* 20.'' @ dec_nat j @ '': B */\<newline>    b_init();\<newline>'' @ c"
    unfolding fn_body_text by (simp add: num nm)
  from t6[THEN conjunct2, THEN conjunct1, rule_format, OF ma]
    t6[THEN conjunct2, THEN conjunct1, rule_format, OF mb]
  have pr: "\<exists>a b. writePrototypes (\<lambda>k m. m) [pkgB, pkgA] = a @ ''void a_init(void);\<newline>'' @ b"
     "\<exists>a b. writePrototypes (\<lambda>k m. m) [pkgB, pkgA] = a @ ''void b_init(void);\<newline>'' @ b"
    unfolding writePrototypes_enumerate by simp_all
  have full: "write_sysinit (\<lambda>s. s) (\<lambda>k m. m) ''P'' [pkgB, pkgA] False =
     ''P#if !SPLIT_LOADER\<newline>\<newline>void a_init(void);\<newline>void b_init(void);\<newline>\<newline>void\<newline>sysinit_app(void)\<newline>{\<newline>\<newline>    /*** Stage 10 */\<newline>    /* 10.0: A */\<newline>    a_init();\<newline>\<newline>    /*** Stage 20 */\<newline>    /* 20.0: B */\<newline>    b_init();\<newline>}\<newline>\<newline>#endif\<newline>''"
    by code_simp
  from ok st body pr full show ?thesis by (intro conjI)
qed

subsection \<open>The generated text depends on the enumeration order of the maps\<close>

lemma write_sysinit_pkgTwo_forward:
  "write_sysinit (\<lambda>s. s) (\<lambda>k m. m) [] [pkgTwo] False =
     ''#if !SPLIT_LOADER\<newline>\<newline>void a_init(void);\<newline>void b_init(void);\<newline>\<newline>void\<newline>sysinit_app(void)\<newline>{\<newline>\<newline>    /*** Stage 1 */\<newline>    /* 1.0: p */\<newline>    a_init();\<newline>    /* 1.1: p */\<newline>    b_init();\<newline>}\<newline>\<newline>#endif\<newline>''"
  by code_simp

lemma write_sysinit_pkgTwo_backward:
  "write_sysinit (\<lambda>s. s) (\<lambda>k. rev) [] [pkgTwo] False =
     ''#if !SPLIT_LOADER\<newline>\<newline>void b_init(void);\<newline>void a_init(void);\<newline>\<newline>void\<newline>sysinit_app(void)\<newline>{\<newline>\<newline>    /*** Stage 1 */\<newline>    /* 1.0: p */\<newline>    b_init();\<newline>    /* 1.1: p */\<newline>    a_init();\<newline>}\<newline>\<newline>#endif\<newline>''"
  by code_simp

text \<open>
  Claim C1.  Two runs on the same packages and the same flag can differ: for
  the package \<open>pkgTwo\<close>, which registers two entry points, a run in which both
  \<^verbatim>\<open>range p.Init()\<close> loops enumerate the map as \<open>a_init, b_init\<close> and a run in
  which they enumerate it as \<open>b_init, a_init\<close> write different prototype blocks
  and different stage blocks.  Both enumerations are ones the language allows.
\<close>

theorem write_sysinit_range_order:
  "range_ok (\<lambda>k m. m :: (string \<times> int) list) \<and> range_ok (\<lambda>k. rev :: (string \<times> int) list \<Rightarrow> _) \<and>
   write_sysinit (\<lambda>s. s) (\<lambda>k m. m) [] [pkgTwo] False =
     ''#if !SPLIT_LOADER\<newline>\<newline>void a_init(void);\<newline>void b_init(void);\<newline>\<newline>void\<newline>sysinit_app(void)\<newline>{\<newline>\<newline>    /*** Stage 1 */\<newline>    /* 1.0: p */\<newline>    a_init();\<newline>    /* 1.1: p */\<newline>    b_init();\<newline>}\<newline>\<newline>#endif\<newline>'' \<and>
   write_sysinit (\<lambda>s. s) (\<lambda>k. rev) [] [pkgTwo] False =
     ''#if !SPLIT_LOADER\<newline>\<newline>void b_init(void);\<newline>void a_init(void);\<newline>\<newline>void\<newline>sysinit_app(void)\<newline>{\<newline>\<newline>    /*** Stage 1 */\<newline>    /* 1.0: p */\<newline>    b_init();\<newline>    /* 1.1: p */\<newline>    a_init();\<newline>}\<newline>\<newline>#endif\<newline>'' \<and>
   write_sysinit (\<lambda>s. s) (\<lambda>k m. m) [] [pkgTwo] False \<noteq> write_sysinit (\<lambda>s. s) (\<lambda>k. rev) [] [pkgTwo] False"
proof -
  have "range_ok (\<lambda>k m. m :: (string \<times> int) list)" "range_ok (\<lambda>k. rev :: (string \<times> int) list \<Rightarrow> _)"
    by (simp_all add: range_ok_def)
  moreover have "write_sysinit (\<lambda>s. s) (\<lambda>k m. m) [] [pkgTwo] False \<noteq> write_sysinit (\<lambda>s. s) (\<lambda>k. rev) [] [pkgTwo] False"
    unfolding write_sysinit_pkgTwo_forward write_sysinit_pkgTwo_backward by simp
  ultimately show ?thesis
    using write_sysinit_pkgTwo_forward write_sysinit_pkgTwo_backward by (intro conjI)
qed

text \<open>
  When no package registers more than one entry point, no enumeration has a
  choice and the generated text is the same in every run.
\<close>

lemma range_singleton:
  assumes "range_ok rng" "length m \<le> 1"
  shows "rng k m = m"
proof -
  have ms: "mset (rng k m) = mset m" using assms(1) by (simp add: range_ok_def)
  show ?thesis
  proof (cases m)
    case Nil with ms show ?thesis by simp
  next
    case (Cons x xs)
    with assms(2) have "m = [x]" by simp
    with ms show ?thesis by (metis mset_single_iff_right mset.simps(1) mset.simps(2) add_mset_eq_single)
  qed
qed

lemma buildStageMap_loop_single:
  "range_ok r1 \<Longrightarrow> range_ok r2 \<Longrightarrow> \<forall>p \<in> set ps. length (Init p) \<le> 1 \<Longrightarrow>
   buildStageMap_loop r1 k ps sm = buildStageMap_loop r2 k' ps sm"
  by (induction ps arbitrary: k k' sm) (simp_all add: range_singleton)

lemma writePrototypes_loop_single:
  "range_ok r1 \<Longrightarrow> range_ok r2 \<Longrightarrow> \<forall>p \<in> set ps. length (Init p) \<le> 1 \<Longrightarrow>
   writePrototypes_loop r1 k ps = writePrototypes_loop r2 k' ps"
  by (induction ps arbitrary: k k') (simp_all add: range_singleton)

theorem write_sysinit_deterministic_single:
  assumes "range_ok r1" "range_ok r2" "\<forall>p \<in> set pkgs. length (Init p) \<le> 1"
  shows "write_sysinit verbs r1 preamble pkgs isLoader = write_sysinit verbs r2 preamble pkgs isLoader"
proof -
  have "buildStageMap r1 pkgs = buildStageMap r2 pkgs"
    unfolding buildStageMap_def using assms by (rule buildStageMap_loop_single)
  moreover have "writePrototypes r1 pkgs = writePrototypes r2 pkgs"
    unfolding writePrototypes_def SortLclPkgs_def
    using assms by (intro writePrototypes_loop_single) simp_all
  ultimately show ?thesis by (simp add: write_sysinit_def)
qed

theorem write_sysinit_deterministic_single_witness:
  "range_ok (\<lambda>k m. m :: (string \<times> int) list) \<and> range_ok (\<lambda>k. rev :: (string \<times> int) list \<Rightarrow> _) \<and>
   length (Init pkgB) \<le> 1 \<and> length (Init pkgA) \<le> 1 \<and>
   write_sysinit (\<lambda>s. s) (\<lambda>k m. m) ''P'' [pkgB, pkgA] False = write_sysinit (\<lambda>s. s) (\<lambda>k. rev) ''P'' [pkgB, pkgA] False"
proof -
  have a: "range_ok (\<lambda>k m. m :: (string \<times> int) list)" "range_ok (\<lambda>k. rev :: (string \<times> int) list \<Rightarrow> _)"
    by (simp_all add: range_ok_def)
  have b: "\<forall>p \<in> set [pkgB, pkgA]. length (Init p) \<le> 1" by (simp add: pkgA_def pkgB_def)
  have c: "length (Init pkgB) \<le> 1" "length (Init pkgA) \<le> 1" by (simp_all add: pkgA_def pkgB_def)
  from a c write_sysinit_deterministic_single[OF a b, of "\<lambda>s. s" "''P''" False] show ?thesis by (intro conjI)
qed

subsection \<open>Writing only when the content differs\<close>








text \<open>
  With a package that registers two entry points, a second run that enumerates
  the map in the other order generates another text and writes the file again,
  although the packages have not changed.
\<close>

theorem EnsureWritten_rewrites:
  "written (snd (EnsureWritten (\<lambda>s. s) (\<lambda>k m. m) [] (\<lambda>p. ''src'') fs_empty [pkgTwo] ''src'' ''t'' False)) =
     [''src/t-sysinit-app.c''] \<and>
   written (snd (EnsureWritten (\<lambda>s. s) (\<lambda>k. rev) [] (\<lambda>p. ''src'')
     (snd (EnsureWritten (\<lambda>s. s) (\<lambda>k m. m) [] (\<lambda>p. ''src'') fs_empty [pkgTwo] ''src'' ''t'' False))
     [pkgTwo] ''src'' ''t'' False)) =
     [''src/t-sysinit-app.c'', ''src/t-sysinit-app.c'']"
proof -
  let ?p = "''src/t-sysinit-app.c''"
  let ?a = "write_sysinit (\<lambda>s. s) (\<lambda>k m. m) [] [pkgTwo] False"
  let ?b = "write_sysinit (\<lambda>s. s) (\<lambda>k. rev) [] [pkgTwo] False"
  let ?fs = "fs_empty\<lparr>dirs := {''src''}, files := [?p \<mapsto> ?a], written := [?p]\<rparr>"
  have ne: "?a \<noteq> ?b"
    unfolding write_sysinit_pkgTwo_forward write_sysinit_pkgTwo_backward by simp
  have one: "EnsureWritten (\<lambda>s. s) (\<lambda>k m. m) [] (\<lambda>p. ''src'') fs_empty [pkgTwo] ''src'' ''t'' False = (None, ?fs)"
    by (simp add: EnsureWritten_def writeRequired_def ReadFile_def MkdirAll_def WriteFile_def
        sysinit_path_def fs_empty_def Let_def)
  have two: "written (snd (EnsureWritten (\<lambda>s. s) (\<lambda>k. rev) [] (\<lambda>p. ''src'') ?fs [pkgTwo] ''src'' ''t'' False)) = [?p, ?p]"
    using ne
    by (simp add: EnsureWritten_def writeRequired_def ReadFile_def MkdirAll_def WriteFile_def
        sysinit_path_def fs_empty_def Let_def)
  from one two show ?thesis by simp
qed

section \<open>Properties of the package file\<close>

subsection \<open>The package type of a loaded descriptor\<close>

lemma type_of_name_unknown:
  "typeString \<notin> snd ` set names \<Longrightarrow> type_of_name lib names typeString = lib"
  by (induction names) auto

lemma type_of_name_known:
  "typeString \<in> snd ` set names \<Longrightarrow> (type_of_name lib names typeString, typeString) \<in> set names"
proof (induction names)
  case Nil
  then show ?case by simp
next
  case (Cons p names)
  obtain t n where p: "p = (t, n)" by (cases p)
  show ?case
  proof (cases "typeString = n")
    case True
    then show ?thesis by (simp add: p)
  next
    case False
    with Cons.prems p have "typeString \<in> snd ` set names" by auto
    from Cons.IH[OF this] False show ?thesis by (simp add: p)
  qed
qed

lemma type_of_name_distinct:
  "(t, typeString) \<in> set names \<Longrightarrow> distinct (map snd names) \<Longrightarrow>
   type_of_name lib names typeString = t"
  by (induction names) (auto simp: rev_image_eqI)

lemma descriptor_base_name: "TrimSuffix PACKAGE_FILE_NAME ''.yml'' = ''pkg''"
  by (simp add: TrimSuffix_def PACKAGE_FILE_NAME_def)

lemma Load_read:
  assumes "ReadConfig env (basePath pkg) ''pkg'' = Inr v"
  shows "fst (Load env pkg) = snd (LoadVersion env (GetString v ''pkg.vers''))"
    and "packageType (snd (Load env pkg)) =
         type_of_name (PACKAGE_TYPE_LIB env) (PackageTypeNames env) (GetString v ''pkg.type'')"
    and "name (snd (Load env pkg)) = GetString v ''pkg.name''"
  using assms
  by (auto simp: Load_def descriptor_base_name readDesc_def Let_def split: prod.splits option.splits)

text \<open>
  Claim C6.  Let the descriptor of the package be readable, with configuration
  \<open>v\<close>.  \<^verbatim>\<open>Load\<close> returns an error exactly when \<^verbatim>\<open>LoadVersion\<close> returns one for the
  version string: the type string never causes an error.  When the type string
  is none of the names of \<^verbatim>\<open>PackageTypeNames\<close>, the package type is
  \<^verbatim>\<open>PACKAGE_TYPE_LIB\<close>, and \<^verbatim>\<open>Load\<close> returns no error when the version loads.  When the
  type string is one of the names, the package gets a type of that name, which
  is the type \<open>t\<close> of that name when no two types share a name.
\<close>

theorem Load_package_type:
  assumes "ReadConfig env (basePath pkg) ''pkg'' = Inr v"
  shows "fst (Load env pkg) = snd (LoadVersion env (GetString v ''pkg.vers'')) \<and>
         (GetString v ''pkg.type'' \<notin> snd ` set (PackageTypeNames env) \<longrightarrow>
            packageType (snd (Load env pkg)) = PACKAGE_TYPE_LIB env \<and>
            (snd (LoadVersion env (GetString v ''pkg.vers'')) = None \<longrightarrow> fst (Load env pkg) = None)) \<and>
         (GetString v ''pkg.type'' \<in> snd ` set (PackageTypeNames env) \<longrightarrow>
            (packageType (snd (Load env pkg)), GetString v ''pkg.type'') \<in> set (PackageTypeNames env)) \<and>
         (\<forall>t. (t, GetString v ''pkg.type'') \<in> set (PackageTypeNames env) \<and>
               distinct (map snd (PackageTypeNames env)) \<longrightarrow>
            packageType (snd (Load env pkg)) = t)"
  using Load_read[OF assms]
  by (auto simp: type_of_name_unknown type_of_name_known type_of_name_distinct)

theorem Load_package_type_witness:
  "ReadConfig scenario_env (basePath (pkg_at ''/r/pkgs/a'')) ''pkg'' = Inr (scenario_viper ''dup'' ''gadget'') \<and>
   ''gadget'' \<notin> snd ` set (PackageTypeNames scenario_env) \<and>
   fst (Load scenario_env (pkg_at ''/r/pkgs/a'')) = None \<and>
   packageType (snd (Load scenario_env (pkg_at ''/r/pkgs/a''))) = 0 \<and>
   ReadConfig scenario_env (basePath (pkg_at ''/r/pkgs/outer'')) ''pkg'' = Inr (scenario_viper ''outer'' ''app'') \<and>
   (2, ''app'') \<in> set (PackageTypeNames scenario_env) \<and>
   distinct (map snd (PackageTypeNames scenario_env)) \<and>
   packageType (snd (Load scenario_env (pkg_at ''/r/pkgs/outer''))) = 2"
proof -
  have a: "ReadConfig scenario_env (basePath (pkg_at ''/r/pkgs/a'')) ''pkg'' = Inr (scenario_viper ''dup'' ''gadget'')"
    by (simp add: pkg_at_def LocalPackage_Init_def scenario_env_def)
  have b: "ReadConfig scenario_env (basePath (pkg_at ''/r/pkgs/outer'')) ''pkg'' = Inr (scenario_viper ''outer'' ''app'')"
    by (simp add: pkg_at_def LocalPackage_Init_def scenario_env_def)
  have ga: "GetString (scenario_viper ''dup'' ''gadget'') ''pkg.type'' = ''gadget''"
    and gb: "GetString (scenario_viper ''outer'' ''app'') ''pkg.type'' = ''app''"
    by (simp_all add: scenario_viper_def)
  have tbl: "PackageTypeNames scenario_env = [(0, ''lib''), (1, ''bsp''), (2, ''app'')]"
    "PACKAGE_TYPE_LIB scenario_env = 0" "\<And>s. snd (LoadVersion scenario_env s) = None"
    by (simp_all add: scenario_env_def)
  have u: "''gadget'' \<notin> snd ` set (PackageTypeNames scenario_env)" by (simp add: tbl)
  have k: "(2, ''app'') \<in> set (PackageTypeNames scenario_env)"
    "distinct (map snd (PackageTypeNames scenario_env))" by (simp_all add: tbl)
  from Load_package_type[OF a] u
  have r1: "fst (Load scenario_env (pkg_at ''/r/pkgs/a'')) = None"
    "packageType (snd (Load scenario_env (pkg_at ''/r/pkgs/a''))) = 0"
    by (simp_all add: ga tbl)
  from Load_package_type[OF b] k
  have r2: "packageType (snd (Load scenario_env (pkg_at ''/r/pkgs/outer''))) = 2"
    unfolding gb by blast
  from a u r1 b k r2 show ?thesis by (intro conjI)
qed

subsection \<open>The descriptor \<^verbatim>\<open>Save\<close> writes\<close>

lemma write_strings_no_panic:
  "write_strings xs = (t, False) \<Longrightarrow> \<exists>ys. xs = map Some ys \<and> t = concat ys"
proof (induction xs arbitrary: t rule: write_strings.induct)
  case 1
  then show ?case by simp
next
  case (2 rest)
  then show ?case by simp
next
  case (3 s rest)
  then obtain t' where t': "write_strings rest = (t', False)" "t = s @ t'"
    by (auto split: prod.splits)
  from "3.IH"[OF t'(1)] obtain ys where "rest = map Some ys" "t' = concat ys" by blast
  with t' have "Some s # rest = map Some (s # ys) \<and> t = concat (s # ys)" by simp
  then show ?case by (intro exI[of _ "s # ys"])
qed

lemma save_lines_full:
  "vers pkg = Some v \<Longrightarrow> desc pkg = Some d \<Longrightarrow> repo pkg = Some r \<Longrightarrow>
   write_strings (save_lines env pkg) = (descriptor_text env pkg v d r, False)"
  by (simp add: save_lines_def descriptor_text_def render_fields_def)

lemma save_lines_no_panic:
  assumes "write_strings (save_lines env pkg) = (t, False)"
  shows "\<exists>v d r. vers pkg = Some v \<and> desc pkg = Some d \<and> repo pkg = Some r"
proof -
  from write_strings_no_panic[OF assms] obtain ys where "save_lines env pkg = map Some ys" by blast
  then show ?thesis
    by (cases "vers pkg"; cases "desc pkg"; cases "repo pkg") (auto simp: save_lines_def)
qed

text \<open>
  Claim C9.  When \<^verbatim>\<open>Save\<close> returns no error, the descriptor file of the package
  (at the base path, a slash and \<^verbatim>\<open>pkg.yml\<close>) holds \<open>descriptor_text\<close>: the comment
  line with the package name, then one line for each of \<^verbatim>\<open>pkg.name\<close>, \<^verbatim>\<open>pkg.vers\<close>,
  \<^verbatim>\<open>pkg.type\<close>, \<^verbatim>\<open>pkg.description\<close>, \<^verbatim>\<open>pkg.author\<close>, \<^verbatim>\<open>pkg.homepage\<close> and
  \<^verbatim>\<open>pkg.repository\<close>, in this order.  \<^verbatim>\<open>Save\<close> returns no error when the directory can be
  made, the file can be created and the package has a version, a description
  and a repository.
\<close>

theorem Save_field_order:
  "(Save env pkg fs = (Returns None, fs') \<longrightarrow>
      (\<exists>v d r. vers pkg = Some v \<and> desc pkg = Some d \<and> repo pkg = Some r \<and>
         files fs' (basePath pkg @ ''/'' @ PACKAGE_FILE_NAME) = Some (descriptor_text env pkg v d r))) \<and>
   (\<forall>v d r. descriptor_text env pkg v d r =
      ''### Package: '' @ name pkg @ ''\<newline>\<newline>'' @
      ''pkg.name: '' @ name pkg @ ''\<newline>'' @
      ''pkg.vers: '' @ VersionString env v @ ''\<newline>'' @
      ''pkg.type: '' @ (case map_of (PackageTypeNames env) (packageType pkg) of None \<Rightarrow> [] | Some n \<Rightarrow> n) @ ''\<newline>'' @
      ''pkg.description: '' @ Description d @ ''\<newline>'' @
      ''pkg.author: '' @ Author d @ ''\<newline>'' @
      ''pkg.homepage: '' @ Homepage d @ ''\<newline>'' @
      ''pkg.repository: '' @ repoName r @ ''\<newline>'') \<and>
   (\<forall>v d r. mkdir_fails fs (basePath pkg) = None \<and>
      write_fails fs (basePath pkg @ ''/'' @ PACKAGE_FILE_NAME) = None \<and>
      vers pkg = Some v \<and> desc pkg = Some d \<and> repo pkg = Some r \<longrightarrow>
      fst (Save env pkg fs) = Returns None \<and>
      files (snd (Save env pkg fs)) (basePath pkg @ ''/'' @ PACKAGE_FILE_NAME) =
        Some (descriptor_text env pkg v d r))"
proof (intro conjI impI allI)
  assume s: "Save env pkg fs = (Returns None, fs')"
  let ?path = "basePath pkg @ ''/'' @ PACKAGE_FILE_NAME"
  from s obtain t where t: "write_strings (save_lines env pkg) = (t, False)"
    and f: "files fs' ?path = Some t"
    by (auto simp: Save_def MkdirAll_def Let_def split: sum.splits option.splits prod.splits if_splits)
  from save_lines_no_panic[OF t] obtain v d r where
    p: "vers pkg = Some v" "desc pkg = Some d" "repo pkg = Some r" by blast
  from save_lines_full[OF p, of env] t have "t = descriptor_text env pkg v d r" by simp
  with p f show "\<exists>v d r. vers pkg = Some v \<and> desc pkg = Some d \<and> repo pkg = Some r \<and>
         files fs' ?path = Some (descriptor_text env pkg v d r)" by blast
next
  fix v d r
  show "descriptor_text env pkg v d r =
      ''### Package: '' @ name pkg @ ''\<newline>\<newline>'' @
      ''pkg.name: '' @ name pkg @ ''\<newline>'' @
      ''pkg.vers: '' @ VersionString env v @ ''\<newline>'' @
      ''pkg.type: '' @ (case map_of (PackageTypeNames env) (packageType pkg) of None \<Rightarrow> [] | Some n \<Rightarrow> n) @ ''\<newline>'' @
      ''pkg.description: '' @ Description d @ ''\<newline>'' @
      ''pkg.author: '' @ Author d @ ''\<newline>'' @
      ''pkg.homepage: '' @ Homepage d @ ''\<newline>'' @
      ''pkg.repository: '' @ repoName r @ ''\<newline>''"
    by (simp add: descriptor_text_def render_fields_def)
next
  fix v d r
  assume h: "mkdir_fails fs (basePath pkg) = None \<and>
      write_fails fs (basePath pkg @ ''/'' @ PACKAGE_FILE_NAME) = None \<and>
      vers pkg = Some v \<and> desc pkg = Some d \<and> repo pkg = Some r"
  then have w: "write_strings (save_lines env pkg) = (descriptor_text env pkg v d r, False)"
    by (intro save_lines_full) simp_all
  from h w show "fst (Save env pkg fs) = Returns None"
    by (simp add: Save_def MkdirAll_def Let_def)
  from h w show "files (snd (Save env pkg fs)) (basePath pkg @ ''/'' @ PACKAGE_FILE_NAME) =
        Some (descriptor_text env pkg v d r)"
    by (simp add: Save_def MkdirAll_def Let_def)
qed

theorem Save_field_order_witness:
  "fst (Save scenario_env scenario_pkg fs_empty) = Returns None \<and>
   files (snd (Save scenario_env scenario_pkg fs_empty)) ''libs/x//pkg.yml'' =
     Some ''### Package: libs/x\<newline>\<newline>pkg.name: libs/x\<newline>pkg.vers: 0.0.0\<newline>pkg.type: app\<newline>pkg.description: an x\<newline>pkg.author: me\<newline>pkg.homepage: http://x\<newline>pkg.repository: local\<newline>''"
proof -
  note th = Save_field_order[of scenario_env scenario_pkg fs_empty "snd (Save scenario_env scenario_pkg fs_empty)"]
  have h: "mkdir_fails fs_empty (basePath scenario_pkg) = None \<and>
      write_fails fs_empty (basePath scenario_pkg @ ''/'' @ PACKAGE_FILE_NAME) = None \<and>
      vers scenario_pkg = Some () \<and>
      desc scenario_pkg = Some \<lparr>Author = ''me'', Homepage = ''http://x'', Description = ''an x'', Keywords = []\<rparr> \<and>
      repo scenario_pkg = Some \<lparr>repoName = ''local''\<rparr>"
    by (simp add: fs_empty_def scenario_pkg_def)
  from th h have r: "fst (Save scenario_env scenario_pkg fs_empty) = Returns None"
    by blast
  then have "Save scenario_env scenario_pkg fs_empty = (Returns None, snd (Save scenario_env scenario_pkg fs_empty))"
    by (metis prod.collapse)
  with th obtain v d r' where
    "vers scenario_pkg = Some v" "desc scenario_pkg = Some d" "repo scenario_pkg = Some r'"
    "files (snd (Save scenario_env scenario_pkg fs_empty)) (basePath scenario_pkg @ ''/'' @ PACKAGE_FILE_NAME) =
       Some (descriptor_text scenario_env scenario_pkg v d r')" by blast
  then have "files (snd (Save scenario_env scenario_pkg fs_empty)) ''libs/x//pkg.yml'' =
     Some ''### Package: libs/x\<newline>\<newline>pkg.name: libs/x\<newline>pkg.vers: 0.0.0\<newline>pkg.type: app\<newline>pkg.description: an x\<newline>pkg.author: me\<newline>pkg.homepage: http://x\<newline>pkg.repository: local\<newline>''"
    by (auto simp: scenario_pkg_def PACKAGE_FILE_NAME_def descriptor_text_def render_fields_def scenario_env_def)
  with r show ?thesis by simp
qed

subsection \<open>What \<^verbatim>\<open>Hash\<close> feeds to the digest\<close>

text \<open>
  Claim C2.  The name of a file is not written to the hash: a package whose
  only file \<^verbatim>\<open>a.c\<close> holds \<open>x\<close> and one whose only file \<^verbatim>\<open>b.c\<close> holds \<open>x\<close> feed the
  same bytes (the directory name and \<open>x\<close>) and so have the same hash, whatever
  the hash function is.  Nor are the contents of two files delimited: moving a
  byte from the end of one file to the start of the next leaves the bytes fed,
  and the hash, the same.
\<close>

theorem Hash_leaves_out_file_names:
  "Hash sha1hex (Some (Directory ''p'' None [File ''a.c'' (Inr ''x'')])) = Returns (sha1hex ''px'', None) \<and>
   Hash sha1hex (Some (Directory ''p'' None [File ''b.c'' (Inr ''x'')])) = Returns (sha1hex ''px'', None) \<and>
   Hash sha1hex (Some (Directory ''p'' None [File ''a.c'' (Inr ''xy''), File ''b.c'' (Inr ''z'')])) =
   Hash sha1hex (Some (Directory ''p'' None [File ''a.c'' (Inr ''x''), File ''b.c'' (Inr ''yz'')]))"
  by (simp add: Hash_def hash_walkFn_def PackageHashIgnoreDirs_def)

lemma walk_regular:
  "regular n \<Longrightarrow> walk n acc = (Continue, acc @ fed n)"
  "regular_list ns \<Longrightarrow> walk_names ns acc = (Continue, acc @ fed_list ns)"
proof (induction n acc and ns acc rule: walk_walk_names.induct)
  case (1 nm c acc)
  then show ?case by (cases c) (simp_all add: hash_walkFn_def)
next
  case (2 nm e ents acc)
  show ?case
  proof (cases "PackageHashIgnoreDirs nm")
    case True
    then show ?thesis by (simp add: hash_walkFn_def)
  next
    case False
    with "2.prems" have r: "e = None" "regular_list ents" by simp_all
    from False have h: "hash_walkFn (Directory nm e ents) acc = (Continue, acc @ nm)"
      by (simp add: hash_walkFn_def)
    from "2.IH"[OF h[symmetric] refl r(1) r(2)] have "walk_names ents (acc @ nm) = (Continue, (acc @ nm) @ fed_list ents)" .
    with False h r show ?thesis by simp
  qed
next
  case (3 acc)
  then show ?case by simp
next
  case (4 n ns acc)
  from "4.prems" have r: "regular n" "regular_list ns" by simp_all
  from "4.IH"(1)[OF r(1)] have w: "walk n acc = (Continue, acc @ fed n)" .
  from "4.IH"(2)[OF w[symmetric] refl r(2)] have "walk_names ns (acc @ fed n) = (Continue, (acc @ fed n) @ fed_list ns)" .
  with w show ?case by simp
qed

text \<open>
  For a regular tree the hash is that of \<open>fed\<close>: in walk order, the name of
  every directory that is not ignored and the contents of every file outside
  the ignored directories.
\<close>

theorem Hash_regular:
  assumes "regular n"
  shows "Hash sha1hex (Some n) = Returns (sha1hex (fed n), None)"
  using walk_regular(1)[OF assms, of "[]"] by (simp add: Hash_def)

theorem Hash_regular_witness:
  "regular hash_tree \<and> Hash sha1hex (Some hash_tree) = Returns (sha1hex ''ppkg.name: psrcint x;'', None)"
proof (intro allI conjI)
  show r: "regular hash_tree" by code_simp
  have "fed hash_tree = ''ppkg.name: psrcint x;''" by code_simp
  with Hash_regular[OF r] show "Hash sha1hex (Some hash_tree) = Returns (sha1hex ''ppkg.name: psrcint x;'', None)"
    by simp
qed

subsection \<open>Discovery loads the directories of \<open>discovered\<close>, in that order\<close>

lemma read_recursive_success:
  "ReadLocalPackageRecursive env r pl base pn node = (None, pl') \<Longrightarrow>
     pl' = fold (add_loaded env r) (loaded_dirs (base @ ''/'' @ pn) node) pl"
  "read_entries env r pl base pn ents = (None, pl') \<Longrightarrow>
     pl' = fold (add_loaded env r) (loaded_below (base @ ''/'' @ pn) ents) pl"
proof (induction env r pl base pn node and env r pl base pn ents
    arbitrary: pl' and pl' rule: ReadLocalPackageRecursive_read_entries.induct)
  case (1 env r pkgList base pkgName nm c)
  then show ?case by simp
next
  case (2 env r pkgList base pkgName nm err dirList)
  then show ?case by simp
next
  case (3 env r pkgList base pkgName nm dirList)
  from "3.prems" obtain pl1 where
    e: "read_entries env r pkgList base pkgName dirList = (None, pl1)"
    by (auto split: prod.splits option.splits)
  from "3.IH"[OF e] have pl1: "pl1 = fold (add_loaded env r) (loaded_below (base @ ''/'' @ pkgName) dirList) pkgList" .
  show ?case
  proof (cases "descriptor_absent dirList")
    case True
    with "3.prems" e pl1 show ?thesis by simp
  next
    case False
    with "3.prems" e obtain pkg where
      l: "LoadLocalPackage env r (base @ ''/'' @ pkgName) = (pkg, None)" and
      p: "pl' = pl1(name pkg \<mapsto> pkg)"
      by (auto split: prod.splits option.splits)
    from l p have "pl' = add_loaded env r (base @ ''/'' @ pkgName) pl1"
      by (simp add: add_loaded_def)
    with False pl1 show ?thesis by simp
  qed
next
  case (4 env r pkgList base pkgName)
  then show ?case by simp
next
  case (5 env r pkgList base pkgName dirEnt rest)
  show ?case
  proof (cases "enters dirEnt")
    case False
    then have skip: "\<not> IsDir dirEnt \<or> LocalPackageSpecialName (node_name dirEnt) \<or> HasPrefix (node_name dirEnt) ''.''"
      by (auto simp: enters_def)
    with "5.prems" have "read_entries env r pkgList base pkgName rest = (None, pl')"
      by (auto split: if_splits)
    with skip "5.IH"(1,2) have "pl' = fold (add_loaded env r) (loaded_below (base @ ''/'' @ pkgName) rest) pkgList"
      by blast 
    with False show ?thesis by simp
  next
    case True
    then have ent: "IsDir dirEnt" "\<not> (LocalPackageSpecialName (node_name dirEnt) \<or> HasPrefix (node_name dirEnt) ''.'')"
      by (auto simp: enters_def)
    with "5.prems" obtain pl1 where
      a: "ReadLocalPackageRecursive env r pkgList base (pkgName @ ''/'' @ node_name dirEnt) dirEnt = (None, pl1)"
      and b: "read_entries env r pl1 base pkgName rest = (None, pl')"
      by (auto split: prod.splits option.splits)
    from "5.IH"(3) ent a have 1: "pl1 = fold (add_loaded env r)
        (loaded_dirs (base @ ''/'' @ pkgName @ ''/'' @ node_name dirEnt) dirEnt) pkgList" by simp
    from "5.IH"(4) ent a b have 2: "pl' = fold (add_loaded env r)
        (loaded_below (base @ ''/'' @ pkgName) rest) pl1" by simp
    from 1 2 True show ?thesis by simp
  qed
qed

lemma read_recursive_ok:
  "traversable node \<Longrightarrow>
   \<forall>d \<in> set (loaded_dirs (base @ ''/'' @ pn) node). snd (LoadLocalPackage env r d) = None \<Longrightarrow>
     fst (ReadLocalPackageRecursive env r pl base pn node) = None"
  "traversable_below ents \<Longrightarrow>
   \<forall>d \<in> set (loaded_below (base @ ''/'' @ pn) ents). snd (LoadLocalPackage env r d) = None \<Longrightarrow>
     fst (read_entries env r pl base pn ents) = None"
proof (induction env r pl base pn node and env r pl base pn ents
    rule: ReadLocalPackageRecursive_read_entries.induct)
  case (1 env r pkgList base pkgName nm c)
  then show ?case by simp
next
  case (2 env r pkgList base pkgName nm err dirList)
  then show ?case by simp
next
  case (3 env r pkgList base pkgName nm dirList)
  from "3.prems" have "fst (read_entries env r pkgList base pkgName dirList) = None"
    by (intro "3.IH") auto
  then obtain pl1 where e: "read_entries env r pkgList base pkgName dirList = (None, pl1)"
    by (cases "read_entries env r pkgList base pkgName dirList") auto
  show ?case
  proof (cases "descriptor_absent dirList")
    case True
    with e show ?thesis by simp
  next
    case False
    with "3.prems"(2) have "snd (LoadLocalPackage env r (base @ ''/'' @ pkgName)) = None" by simp
    with e False show ?thesis by (auto split: prod.splits option.splits)
  qed
next
  case (4 env r pkgList base pkgName)
  then show ?case by simp
next
  case (5 env r pkgList base pkgName dirEnt rest)
  show ?case
  proof (cases "enters dirEnt")
    case False
    then have skip: "\<not> IsDir dirEnt \<or> LocalPackageSpecialName (node_name dirEnt) \<or> HasPrefix (node_name dirEnt) ''.''"
      by (auto simp: enters_def)
    from "5.prems" False have p: "traversable_below rest"
      "\<forall>d \<in> set (loaded_below (base @ ''/'' @ pkgName) rest). snd (LoadLocalPackage env r d) = None"
      by auto
    from skip "5.IH"(1,2) p have "fst (read_entries env r pkgList base pkgName rest) = None" by blast
    with skip show ?thesis by auto
  next
    case True
    then have ent: "IsDir dirEnt" "\<not> (LocalPackageSpecialName (node_name dirEnt) \<or> HasPrefix (node_name dirEnt) ''.'')"
      by (auto simp: enters_def)
    from "5.prems" True have p1: "traversable dirEnt"
      "\<forall>d \<in> set (loaded_dirs (base @ ''/'' @ (pkgName @ ''/'' @ node_name dirEnt)) dirEnt). snd (LoadLocalPackage env r d) = None"
      and p2: "traversable_below rest"
      "\<forall>d \<in> set (loaded_below (base @ ''/'' @ pkgName) rest). snd (LoadLocalPackage env r d) = None"
      by auto
    from "5.IH"(3) ent p1 have "fst (ReadLocalPackageRecursive env r pkgList base (pkgName @ ''/'' @ node_name dirEnt) dirEnt) = None"
      by blast
    then obtain pl1 where a: "ReadLocalPackageRecursive env r pkgList base (pkgName @ ''/'' @ node_name dirEnt) dirEnt = (None, pl1)"
      by (cases "ReadLocalPackageRecursive env r pkgList base (pkgName @ ''/'' @ node_name dirEnt) dirEnt") auto
    from "5.IH"(4) ent a p2 have "fst (read_entries env r pl1 base pkgName rest) = None" by simp
    with ent a show ?thesis by simp
  qed
qed

lemma loaded_below_filter:
  "loaded_below path ents =
     concat (map (\<lambda>d. loaded_dirs (path @ ''/'' @ node_name d) d) (filter enters ents))"
  by (induction ents) simp_all

lemma loaded_dirs_closed_form:
  "loaded_dirs path (Directory nm e ents) =
     concat (map (\<lambda>d. loaded_dirs (path @ ''/'' @ node_name d) d) (filter enters ents)) @
     (if descriptor_absent ents then [] else [path])"
  by (simp add: loaded_below_filter)

lemma hidden_dotdot: "HasPrefix n ''..'' \<Longrightarrow> HasPrefix n ''.''"
  by (cases n) (auto simp: HasPrefix_def)

lemma read_subdirs_success:
  "read_subdirs env r pl pkgDir ents = (None, pl') \<Longrightarrow>
   pl' = fold (add_loaded env r)
           (concat (map (\<lambda>d. loaded_dirs (pkgDir @ ''/'' @ node_name d) d) (filter top_enters ents))) pl"
proof (induction ents arbitrary: pl)
  case Nil
  then show ?case by simp
next
  case (Cons d ds)
  show ?case
  proof (cases "top_enters d")
    case False
    then have "HasPrefix (node_name d) ''.'' \<or> HasPrefix (node_name d) ''..'' \<or> \<not> IsDir d"
      by (auto simp: top_enters_def)
    with Cons.prems have "read_subdirs env r pl pkgDir ds = (None, pl')" by (auto split: if_splits)
    from Cons.IH[OF this] False show ?thesis by simp
  next
    case True
    then have ent: "\<not> (HasPrefix (node_name d) ''.'' \<or> HasPrefix (node_name d) ''..'')" "IsDir d"
      by (auto simp: top_enters_def dest: hidden_dotdot)
    with Cons.prems obtain pl1 where
      a: "ReadLocalPackageRecursive env r pl pkgDir (node_name d) d = (None, pl1)" and
      b: "read_subdirs env r pl1 pkgDir ds = (None, pl')"
      by (auto split: prod.splits option.splits)
    from read_recursive_success(1)[OF a] Cons.IH[OF b] True show ?thesis by simp
  qed
qed

lemma read_subdirs_ok:
  "list_all traversable (filter top_enters ents) \<Longrightarrow>
   \<forall>x \<in> set (concat (map (\<lambda>d. loaded_dirs (pkgDir @ ''/'' @ node_name d) d) (filter top_enters ents))).
      snd (LoadLocalPackage env r x) = None \<Longrightarrow>
   fst (read_subdirs env r pl pkgDir ents) = None"
proof (induction ents arbitrary: pl)
  case Nil
  then show ?case by simp
next
  case (Cons d ds)
  show ?case
  proof (cases "top_enters d")
    case False
    then have skip: "HasPrefix (node_name d) ''.'' \<or> HasPrefix (node_name d) ''..'' \<or> \<not> IsDir d"
      by (auto simp: top_enters_def)
    from Cons.prems False have "fst (read_subdirs env r pl pkgDir ds) = None"
      by (intro Cons.IH) auto
    with skip show ?thesis by auto
  next
    case True
    then have ent: "\<not> (HasPrefix (node_name d) ''.'' \<or> HasPrefix (node_name d) ''..'')" "IsDir d"
      by (auto simp: top_enters_def dest: hidden_dotdot)
    from Cons.prems True have "fst (ReadLocalPackageRecursive env r pl pkgDir (node_name d) d) = None"
      by (intro read_recursive_ok(1)) auto
    then obtain pl1 where a: "ReadLocalPackageRecursive env r pl pkgDir (node_name d) d = (None, pl1)"
      by (cases "ReadLocalPackageRecursive env r pl pkgDir (node_name d) d") auto
    from Cons.prems True have "fst (read_subdirs env r pl1 pkgDir ds) = None"
      by (intro Cons.IH) auto
    with ent a show ?thesis by simp
  qed
qed

lemma read_paths_success:
  "read_paths env r fsys pl base sp = Inr m \<Longrightarrow>
   m = fold (add_loaded env r) (discovered fsys base sp) pl"
proof (induction sp arbitrary: pl)
  case Nil
  then show ?case by (simp add: discovered_def)
next
  case (Cons path rest)
  let ?d = "base @ ''/'' @ path"
  show ?case
  proof (cases "fsys ?d")
    case None
    with Cons.prems have "read_paths env r fsys pl base rest = Inr m" by simp
    from Cons.IH[OF this] None show ?thesis by (simp add: discovered_def loaded_in_path_def)
  next
    case (Some n)
    with Cons.prems obtain nm ents pl1 where
      n: "n = Directory nm None ents" and
      a: "read_subdirs env r pl ?d ents = (None, pl1)" and
      b: "read_paths env r fsys pl1 base rest = Inr m"
      by (auto simp: Let_def split: node.splits option.splits prod.splits)
    from read_subdirs_success[OF a] Cons.IH[OF b] Some n show ?thesis
      by (simp add: discovered_def loaded_in_path_def)
  qed
qed

lemma read_paths_ok:
  "\<forall>path \<in> set sp. top_traversable fsys (base @ ''/'' @ path) \<Longrightarrow>
   \<forall>d \<in> set (discovered fsys base sp). snd (LoadLocalPackage env r d) = None \<Longrightarrow>
   \<exists>m. read_paths env r fsys pl base sp = Inr m"
proof (induction sp arbitrary: pl)
  case Nil
  then show ?case by simp
next
  case (Cons path rest)
  let ?d = "base @ ''/'' @ path"
  from Cons.prems have rest: "\<forall>path \<in> set rest. top_traversable fsys (base @ ''/'' @ path)"
    "\<forall>d \<in> set (discovered fsys base rest). snd (LoadLocalPackage env r d) = None"
    by (auto simp: discovered_def)
  show ?case
  proof (cases "fsys ?d")
    case None
    with Cons.IH[OF rest] show ?thesis by simp
  next
    case (Some n)
    with Cons.prems(1) obtain nm ents where n: "n = Directory nm None ents"
      and t: "list_all traversable (filter top_enters ents)"
      by (auto simp: top_traversable_def split: node.splits)
    from Cons.prems(2) Some n have
      "\<forall>x \<in> set (concat (map (\<lambda>d. loaded_dirs (?d @ ''/'' @ node_name d) d) (filter top_enters ents))).
         snd (LoadLocalPackage env r x) = None"
      by (auto simp: discovered_def loaded_in_path_def)
    from read_subdirs_ok[OF t this, of pl] obtain pl1 where
      a: "read_subdirs env r pl ?d ents = (None, pl1)"
      by (cases "read_subdirs env r pl ?d ents") auto
    from Cons.IH[OF rest] obtain m where "read_paths env r fsys pl1 base rest = Inr m" by blast
    with Some n a show ?thesis by simp
  qed
qed

lemma fold_add_loaded_other:
  "\<forall>d \<in> set C. name (fst (LoadLocalPackage env r d)) \<noteq> n \<Longrightarrow>
   fold (add_loaded env r) C pl n = pl n"
  by (induction C arbitrary: pl) (auto simp: add_loaded_def)

lemma fold_add_loaded_last:
  assumes "\<forall>d \<in> set C. name (fst (LoadLocalPackage env r d)) \<noteq> name (fst (LoadLocalPackage env r d2))"
  shows "fold (add_loaded env r) (A @ d2 # C) pl (name (fst (LoadLocalPackage env r d2))) =
     Some (fst (LoadLocalPackage env r d2))"
  using fold_add_loaded_other[OF assms] by (simp add: add_loaded_def)

lemma dom_fold_add_loaded:
  "dom (fold (add_loaded env r) ds pl) = dom pl \<union> (\<lambda>d. name (fst (LoadLocalPackage env r d))) ` set ds"
  by (induction ds arbitrary: pl) (auto simp: add_loaded_def)

text \<open>The package tree of the scenario.\<close>

lemma scenario_discovered:
  "discovered scenario_fsys ''/r'' [''pkgs''] =
     [''/r/pkgs/a'', ''/r/pkgs/b'', ''/r/pkgs/bin'', ''/r/pkgs/outer/inner'', ''/r/pkgs/outer'']"
  by code_simp

lemma scenario_loads:
  "snd (LoadLocalPackage scenario_env None ''/r/pkgs/a'') = None"
  "snd (LoadLocalPackage scenario_env None ''/r/pkgs/b'') = None"
  "snd (LoadLocalPackage scenario_env None ''/r/pkgs/bin'') = None"
  "snd (LoadLocalPackage scenario_env None ''/r/pkgs/outer/inner'') = None"
  "snd (LoadLocalPackage scenario_env None ''/r/pkgs/outer'') = None"
  by code_simp+

lemma scenario_names:
  "name (fst (LoadLocalPackage scenario_env None ''/r/pkgs/a'')) = ''dup''"
  "name (fst (LoadLocalPackage scenario_env None ''/r/pkgs/b'')) = ''dup''"
  "name (fst (LoadLocalPackage scenario_env None ''/r/pkgs/bin'')) = ''tools''"
  "name (fst (LoadLocalPackage scenario_env None ''/r/pkgs/outer/inner'')) = ''inner''"
  "name (fst (LoadLocalPackage scenario_env None ''/r/pkgs/outer'')) = ''outer''"
  by code_simp+

lemma scenario_base:
  "basePath (fst (LoadLocalPackage scenario_env None ''/r/pkgs/b'')) = ''/r/pkgs/b/''"
  by code_simp

lemma scenario_traversable: "top_traversable scenario_fsys ''/r/pkgs''"
  by code_simp

subsection \<open>Packages inside packages\<close>

text \<open>
  Claim C4, as stated, fails.  In the package tree of the scenario the
  directory \<^verbatim>\<open>outer\<close> holds a descriptor and so does its subdirectory \<^verbatim>\<open>inner\<close>:
  discovery returns both packages, so it does look for packages inside a
  package.  It also returns the package of the directory \<^verbatim>\<open>bin\<close> that lies
  directly in the search path: the special names are skipped only further down.
\<close>

theorem ReadLocalPackages_nested_counterexample:
  "found_at (ReadLocalPackages scenario_env None scenario_fsys ''/r'' [''pkgs'']) ''outer'' = Some ''/r/pkgs/outer/'' \<and>
   found_at (ReadLocalPackages scenario_env None scenario_fsys ''/r'' [''pkgs'']) ''inner'' = Some ''/r/pkgs/outer/inner/'' \<and>
   found_at (ReadLocalPackages scenario_env None scenario_fsys ''/r'' [''pkgs'']) ''tools'' = Some ''/r/pkgs/bin/''"
  by (intro conjI; code_simp)

text \<open>
  Claim C4, amended.  A run of discovery that returns a map has loaded the
  directories of \<open>discovered\<close>, in that order, and the names in the map are the
  names of the packages loaded from them.  It returns a map whenever every
  directory it enters can be listed and every package it loads loads.
  \<open>discovered\<close> goes through the search paths in order; in a search path it
  enters every entry that is a directory and is not hidden; in a directory it
  enters every entry that is a directory, is not named \<^verbatim>\<open>src\<close>, \<^verbatim>\<open>include\<close> or
  \<^verbatim>\<open>bin\<close> and is not hidden, whether or not the directory has a descriptor, and
  then lists the directory itself when it has a descriptor.  So the packages
  below a package are found, before the package, and so are its siblings.
\<close>

theorem ReadLocalPackages_discovers:
  "(ReadLocalPackages env r fsys base sp = Inr m \<longrightarrow>
      m = fold (add_loaded env r) (discovered fsys base sp) Map.empty \<and>
      dom m = (\<lambda>d. name (fst (LoadLocalPackage env r d))) ` set (discovered fsys base sp)) \<and>
   ((\<forall>path \<in> set sp. top_traversable fsys (base @ ''/'' @ path)) \<and>
    (\<forall>d \<in> set (discovered fsys base sp). snd (LoadLocalPackage env r d) = None) \<longrightarrow>
      (\<exists>m. ReadLocalPackages env r fsys base sp = Inr m)) \<and>
   discovered fsys base sp = concat (map (\<lambda>path. loaded_in_path fsys (base @ ''/'' @ path)) sp) \<and>
   (\<forall>pkgDir nm e ents. fsys pkgDir = Some (Directory nm e ents) \<longrightarrow>
      loaded_in_path fsys pkgDir =
        concat (map (\<lambda>d. loaded_dirs (pkgDir @ ''/'' @ node_name d) d)
                  (filter (\<lambda>d. IsDir d \<and> \<not> HasPrefix (node_name d) ''.'') ents))) \<and>
   (\<forall>path nm e ents.
      loaded_dirs path (Directory nm e ents) =
        concat (map (\<lambda>d. loaded_dirs (path @ ''/'' @ node_name d) d)
                  (filter (\<lambda>d. IsDir d \<and> node_name d \<notin> {''src'', ''include'', ''bin''} \<and>
                               \<not> HasPrefix (node_name d) ''.'') ents)) @
        (if PACKAGE_FILE_NAME \<in> node_name ` set ents then [path] else []))"
proof (intro conjI impI allI)
  assume ok: "ReadLocalPackages env r fsys base sp = Inr m"
  then show m: "m = fold (add_loaded env r) (discovered fsys base sp) Map.empty"
    unfolding ReadLocalPackages_def by (rule read_paths_success)
  show "dom m = (\<lambda>d. name (fst (LoadLocalPackage env r d))) ` set (discovered fsys base sp)"
    unfolding m by (simp add: dom_fold_add_loaded)
next
  assume "(\<forall>path \<in> set sp. top_traversable fsys (base @ ''/'' @ path)) \<and>
    (\<forall>d \<in> set (discovered fsys base sp). snd (LoadLocalPackage env r d) = None)"
  then show "\<exists>m. ReadLocalPackages env r fsys base sp = Inr m"
    unfolding ReadLocalPackages_def by (intro read_paths_ok) blast+
next
  show "discovered fsys base sp = concat (map (\<lambda>path. loaded_in_path fsys (base @ ''/'' @ path)) sp)"
    by (simp add: discovered_def)
next
  fix pkgDir nm e ents
  assume "fsys pkgDir = Some (Directory nm e ents)"
  then show "loaded_in_path fsys pkgDir =
        concat (map (\<lambda>d. loaded_dirs (pkgDir @ ''/'' @ node_name d) d)
                  (filter (\<lambda>d. IsDir d \<and> \<not> HasPrefix (node_name d) ''.'') ents))"
    by (simp add: loaded_in_path_def top_enters_def[abs_def])
next
  fix path nm e ents
  have e: "enters = (\<lambda>d. IsDir d \<and> node_name d \<notin> {''src'', ''include'', ''bin''} \<and> \<not> HasPrefix (node_name d) ''.'')"
    by (auto simp: enters_def fun_eq_iff LocalPackageSpecialName_def LocalPackageSpecialNames_def)
  show "loaded_dirs path (Directory nm e ents) =
        concat (map (\<lambda>d. loaded_dirs (path @ ''/'' @ node_name d) d)
                  (filter (\<lambda>d. IsDir d \<and> node_name d \<notin> {''src'', ''include'', ''bin''} \<and>
                               \<not> HasPrefix (node_name d) ''.'') ents)) @
        (if PACKAGE_FILE_NAME \<in> node_name ` set ents then [path] else [])"
    unfolding e[symmetric] by (simp add: loaded_below_filter descriptor_absent_def)
qed

theorem ReadLocalPackages_discovers_witness:
  "top_traversable scenario_fsys (''/r'' @ ''/'' @ ''pkgs'') \<and>
   discovered scenario_fsys ''/r'' [''pkgs''] =
     [''/r/pkgs/a'', ''/r/pkgs/b'', ''/r/pkgs/bin'', ''/r/pkgs/outer/inner'', ''/r/pkgs/outer''] \<and>
   (\<exists>m. ReadLocalPackages scenario_env None scenario_fsys ''/r'' [''pkgs''] = Inr m \<and>
        dom m = {''dup'', ''tools'', ''inner'', ''outer''})"
proof -
  note th = ReadLocalPackages_discovers[of scenario_env None scenario_fsys "''/r''" "[''pkgs'']"]
  have t: "\<forall>path \<in> set [''pkgs'']. top_traversable scenario_fsys (''/r'' @ ''/'' @ path)"
    using scenario_traversable by simp
  have l: "\<forall>d \<in> set (discovered scenario_fsys ''/r'' [''pkgs'']). snd (LoadLocalPackage scenario_env None d) = None"
    by (simp add: scenario_discovered scenario_loads)
  from th t l obtain m where m: "ReadLocalPackages scenario_env None scenario_fsys ''/r'' [''pkgs''] = Inr m"
    by blast
  from th[of m] m have "dom m = (\<lambda>d. name (fst (LoadLocalPackage scenario_env None d))) `
      set (discovered scenario_fsys ''/r'' [''pkgs''])" by blast
  then have "dom m = {''dup'', ''tools'', ''inner'', ''outer''}"
    by (simp add: scenario_discovered scenario_names)
  with m t show ?thesis by (simp add: scenario_discovered)
qed

subsection \<open>Two packages of one name\<close>

text \<open>
  Claim C10.  Let discovery return the map \<open>m\<close>, and let it load \<open>d1\<close> before
  \<open>d2\<close>, both declaring the same name, with no directory of that name loaded
  after \<open>d2\<close>.  Then \<open>m\<close> holds under that name the package of \<open>d2\<close>; the
  package of \<open>d1\<close> has been replaced.  The duplicate causes no error: discovery
  returns a map whenever every directory it enters can be listed and every
  package it loads loads.
\<close>

theorem ReadLocalPackages_later_replaces_earlier:
  "(ReadLocalPackages env r fsys base sp = Inr m \<longrightarrow>
      (\<forall>A d1 B d2 C.
         discovered fsys base sp = A @ d1 # B @ d2 # C \<and>
         name (fst (LoadLocalPackage env r d1)) = name (fst (LoadLocalPackage env r d2)) \<and>
         (\<forall>d \<in> set C. name (fst (LoadLocalPackage env r d)) \<noteq> name (fst (LoadLocalPackage env r d2))) \<longrightarrow>
         m (name (fst (LoadLocalPackage env r d1))) = Some (fst (LoadLocalPackage env r d2)))) \<and>
   ((\<forall>path \<in> set sp. top_traversable fsys (base @ ''/'' @ path)) \<and>
    (\<forall>d \<in> set (discovered fsys base sp). snd (LoadLocalPackage env r d) = None) \<longrightarrow>
      (\<exists>m. ReadLocalPackages env r fsys base sp = Inr m))"
proof (intro conjI impI allI)
  fix A d1 B d2 C
  assume ok: "ReadLocalPackages env r fsys base sp = Inr m"
    and h: "discovered fsys base sp = A @ d1 # B @ d2 # C \<and>
         name (fst (LoadLocalPackage env r d1)) = name (fst (LoadLocalPackage env r d2)) \<and>
         (\<forall>d \<in> set C. name (fst (LoadLocalPackage env r d)) \<noteq> name (fst (LoadLocalPackage env r d2)))"
  from ok have m: "m = fold (add_loaded env r) (discovered fsys base sp) Map.empty"
    unfolding ReadLocalPackages_def by (rule read_paths_success)
  from h have split: "discovered fsys base sp = (A @ d1 # B) @ d2 # C" by simp
  from h have last: "\<forall>d \<in> set C. name (fst (LoadLocalPackage env r d)) \<noteq> name (fst (LoadLocalPackage env r d2))"
    by blast
  have "m (name (fst (LoadLocalPackage env r d2))) = Some (fst (LoadLocalPackage env r d2))"
    unfolding m split by (rule fold_add_loaded_last[OF last])
  with h show "m (name (fst (LoadLocalPackage env r d1))) = Some (fst (LoadLocalPackage env r d2))"
    by simp
next
  assume "(\<forall>path \<in> set sp. top_traversable fsys (base @ ''/'' @ path)) \<and>
    (\<forall>d \<in> set (discovered fsys base sp). snd (LoadLocalPackage env r d) = None)"
  then show "\<exists>m. ReadLocalPackages env r fsys base sp = Inr m"
    unfolding ReadLocalPackages_def by (intro read_paths_ok) blast+
qed

theorem ReadLocalPackages_later_replaces_earlier_witness:
  "discovered scenario_fsys ''/r'' [''pkgs''] =
     [] @ ''/r/pkgs/a'' # [] @ ''/r/pkgs/b'' # [''/r/pkgs/bin'', ''/r/pkgs/outer/inner'', ''/r/pkgs/outer''] \<and>
   name (fst (LoadLocalPackage scenario_env None ''/r/pkgs/a'')) = ''dup'' \<and>
   name (fst (LoadLocalPackage scenario_env None ''/r/pkgs/b'')) = ''dup'' \<and>
   found_at (ReadLocalPackages scenario_env None scenario_fsys ''/r'' [''pkgs'']) ''dup'' = Some ''/r/pkgs/b/''"
proof -
  note th = ReadLocalPackages_later_replaces_earlier[of scenario_env None scenario_fsys "''/r''" "[''pkgs'']"]
  have d: "discovered scenario_fsys ''/r'' [''pkgs''] =
     [] @ ''/r/pkgs/a'' # [] @ ''/r/pkgs/b'' # [''/r/pkgs/bin'', ''/r/pkgs/outer/inner'', ''/r/pkgs/outer'']"
    by (simp add: scenario_discovered)
  have t: "\<forall>path \<in> set [''pkgs'']. top_traversable scenario_fsys (''/r'' @ ''/'' @ path)"
    using scenario_traversable by simp
  have l: "\<forall>d \<in> set (discovered scenario_fsys ''/r'' [''pkgs'']). snd (LoadLocalPackage scenario_env None d) = None"
    by (simp add: scenario_discovered scenario_loads)
  from th t l obtain m where m: "ReadLocalPackages scenario_env None scenario_fsys ''/r'' [''pkgs''] = Inr m"
    by blast
  have c: "\<forall>d \<in> set [''/r/pkgs/bin'', ''/r/pkgs/outer/inner'', ''/r/pkgs/outer''].
      name (fst (LoadLocalPackage scenario_env None d)) \<noteq> name (fst (LoadLocalPackage scenario_env None ''/r/pkgs/b''))"
    by (simp add: scenario_names)
  have n: "name (fst (LoadLocalPackage scenario_env None ''/r/pkgs/a'')) =
      name (fst (LoadLocalPackage scenario_env None ''/r/pkgs/b''))"
    by (simp add: scenario_names)
  from th[of m] m d n c
  have "m (name (fst (LoadLocalPackage scenario_env None ''/r/pkgs/a''))) =
      Some (fst (LoadLocalPackage scenario_env None ''/r/pkgs/b''))"
    by blast
  then have "found_at (ReadLocalPackages scenario_env None scenario_fsys ''/r'' [''pkgs'']) ''dup'' = Some ''/r/pkgs/b/''"
    by (simp add: m found_at_def scenario_names scenario_base)
  with d show ?thesis by (simp add: scenario_names)
qed

section \<open>Properties of the target commands\<close>

subsection \<open>When a setting is shown as overridden\<close>

text \<open>
  Claim C7, as stated, fails.  The setting \<open>entry_once\<close> has the default and one
  further history entry, so not more than one entry beyond the default, and
  \<^verbatim>\<open>printSetting\<close> shows it as overridden.
\<close>

theorem printSetting_overridden_counterexample:
  "printSetting entry_once =
     ''  * Setting: LOG_LEVEL\<newline>    * Description: level\<newline>    * Value: 1\<newline>    * Overridden: apps/blinky, default=0\<newline>'' \<and>
   override_line entry_once \<noteq> [] \<and>
   length (History entry_once) - 1 = 1 \<and> \<not> (1 < length (History entry_once) - 1)"
  by (simp add: printSetting_def override_line_def entry_once_def)

lemma upt_tl_map: "map (\<lambda>i. f (xs ! i)) [1 ..< length xs] = map f (tl xs)"
proof -
  have "map (\<lambda>i. f (xs ! i)) [1 ..< length xs] = map f (map (nth xs) (drop 1 [0 ..< length xs]))"
    by (simp add: comp_def)
  also have "\<dots> = map f (drop 1 (map (nth xs) [0 ..< length xs]))"
    unfolding drop_map ..
  also have "\<dots> = map f (tl xs)"
    unfolding map_nth by (simp add: drop_Suc)
  finally show ?thesis .
qed

text \<open>
  Claim C7, amended.  \<^verbatim>\<open>printSetting\<close> shows a setting as overridden exactly when
  its history has more than one entry, that is, at least one entry beyond the
  default.  The line then lists the names of the packages of the history
  entries after the first, each followed by a comma, and ends with the value of
  the first entry as the default.
\<close>

theorem printSetting_overridden:
  "(override_line entry \<noteq> [] \<longleftrightarrow> 1 < length (History entry)) \<and>
   printSetting entry =
     ''  * Setting: '' @ entryName entry @ ''\<newline>'' @
     ''    * Description: '' @ entryDescription entry @ ''\<newline>'' @
     ''    * Value: '' @ entryValue entry @ ''\<newline>'' @ override_line entry \<and>
   (1 < length (History entry) \<longrightarrow>
      override_line entry =
        ''    * Overridden: '' @
        concat (map (\<lambda>p. Name (Source p) @ '', '') (tl (History entry))) @
        ''default='' @ pointValue (hd (History entry)) @ ''\<newline>'')"
proof (intro conjI impI)
  show "override_line entry \<noteq> [] \<longleftrightarrow> 1 < length (History entry)"
    by (simp add: override_line_def)
  show "printSetting entry =
     ''  * Setting: '' @ entryName entry @ ''\<newline>'' @
     ''    * Description: '' @ entryDescription entry @ ''\<newline>'' @
     ''    * Value: '' @ entryValue entry @ ''\<newline>'' @ override_line entry"
    by (simp add: printSetting_def)
next
  assume l: "1 < length (History entry)"
  then have hd: "History entry ! 0 = hd (History entry)" by (cases "History entry") simp_all
  have "map (\<lambda>i. Name (Source (History entry ! i)) @ '', '') [1 ..< length (History entry)] =
        map (\<lambda>p. Name (Source p) @ '', '') (tl (History entry))"
    by (rule upt_tl_map)
  with l hd show "override_line entry =
        ''    * Overridden: '' @
        concat (map (\<lambda>p. Name (Source p) @ '', '') (tl (History entry))) @
        ''default='' @ pointValue (hd (History entry)) @ ''\<newline>''"
    by (simp add: override_line_def)
qed

theorem printSetting_overridden_witness:
  "1 < length (History entry_once) \<and>
   override_line entry_once = ''    * Overridden: apps/blinky, default=0\<newline>''"
proof -
  have l: "1 < length (History entry_once)" by (simp add: entry_once_def)
  from printSetting_overridden[of entry_once] l
  have "override_line entry_once =
        ''    * Overridden: '' @
        concat (map (\<lambda>p. Name (Source p) @ '', '') (tl (History entry_once))) @
        ''default='' @ pointValue (hd (History entry_once)) @ ''\<newline>''" by blast
  then have "override_line entry_once = ''    * Overridden: apps/blinky, default=0\<newline>''"
    by (simp add: entry_once_def)
  with l show ?thesis by simp
qed

subsection \<open>Groups by package name, settings by name\<close>

lemma sort_same_mset: "mset xs = mset ys \<Longrightarrow> sort xs = sort (ys :: 'a::linorder list)"
  by (rule properties_for_sort) simp_all

lemma map_of_same_mset:
  assumes "mset m' = mset m" "distinct (map fst m)"
  shows "map_of m' = map_of m"
proof -
  from assms(1) have s: "set m' = set m" by (metis set_mset_mset)
  from assms(1) have "mset (map fst m') = mset (map fst m)" by (metis mset_map)
  with assms(2) have "distinct (map fst m')" by (metis distinct_count_atmost_1 set_mset_mset)
  with assms(2) s show ?thesis by (intro map_of_inject_set[THEN iffD2])
qed

text \<open>
  Claim C8.  Both the listing (\<^verbatim>\<open>printCfg\<close>) and the export (\<^verbatim>\<open>yamlCfg\<close>) write one
  group for each key of the map \<^verbatim>\<open>EntriesByPkg\<close> returns, in the order
  \<open>pkgNames_of\<close>, which is ascending in the package name (strictly, the keys of a
  map being distinct); within a group the settings are written in the order
  \<open>settingNames\<close>, the names of the group's entries in ascending order.  The
  text does not depend on the order in which the map is enumerated.
\<close>

theorem cfg_output_grouped_sorted:
  "sorted (pkgNames_of (EntriesByPkg cfg)) \<and>
   set (pkgNames_of (EntriesByPkg cfg)) = fst ` set (EntriesByPkg cfg) \<and>
   (distinct (map fst (EntriesByPkg cfg)) \<longrightarrow> distinct (pkgNames_of (EntriesByPkg cfg))) \<and>
   printCfg EntriesByPkg targetName cfg =
     error_banner cfg @ ''Syscfg for '' @ targetName @ '':\<newline>'' @
     concat (map (\<lambda>(i, pkgName).
               (if i > 0 then ''\<newline>'' else []) @
               printPkgCfg pkgName cfg (entries_of (EntriesByPkg cfg) pkgName))
             (enumerate 0 (pkgNames_of (EntriesByPkg cfg)))) \<and>
   snd (yamlCfg EntriesByPkg cfg) =
     ''syscfg.vals:\<newline>'' @
     concat (map (\<lambda>(i, pkgName).
               (if i > 0 then ''\<newline>'' else []) @
               yamlPkgCfg pkgName cfg (entries_of (EntriesByPkg cfg) pkgName))
             (enumerate 0 (pkgNames_of (EntriesByPkg cfg)))) \<and>
   (\<forall>pkgName entries.
      sorted (settingNames entries) \<and>
      mset (settingNames entries) = mset (map entryName entries) \<and>
      printPkgCfg pkgName cfg entries =
        ''* PACKAGE: '' @ pkgName @ ''\<newline>'' @
        concat (map (\<lambda>n. printSetting (setting cfg n)) (settingNames entries)) \<and>
      yamlPkgCfg pkgName cfg entries =
        ''    ### '' @ pkgName @ ''\<newline>'' @
        concat (map (\<lambda>n. ''    '' @ n @ '': '' @ [CHR 0x27] @ entryValue (setting cfg n) @ [CHR 0x27] @ ''\<newline>'')
                 (settingNames entries))) \<and>
   (\<forall>E'. mset (E' cfg) = mset (EntriesByPkg cfg) \<and> distinct (map fst (EntriesByPkg cfg)) \<longrightarrow>
      printCfg E' targetName cfg = printCfg EntriesByPkg targetName cfg \<and>
      yamlCfg E' cfg = yamlCfg EntriesByPkg cfg)"
proof (intro conjI allI impI)
  show "sorted (pkgNames_of (EntriesByPkg cfg))" by (simp add: pkgNames_of_def)
  show "set (pkgNames_of (EntriesByPkg cfg)) = fst ` set (EntriesByPkg cfg)"
    by (simp add: pkgNames_of_def)
  show "distinct (pkgNames_of (EntriesByPkg cfg))" if "distinct (map fst (EntriesByPkg cfg))"
    using that by (simp add: pkgNames_of_def)
  show "printCfg EntriesByPkg targetName cfg =
     error_banner cfg @ ''Syscfg for '' @ targetName @ '':\<newline>'' @
     concat (map (\<lambda>(i, pkgName).
               (if i > 0 then ''\<newline>'' else []) @
               printPkgCfg pkgName cfg (entries_of (EntriesByPkg cfg) pkgName))
             (enumerate 0 (pkgNames_of (EntriesByPkg cfg))))"
    by (simp add: printCfg_def Let_def)
  show "snd (yamlCfg EntriesByPkg cfg) =
     ''syscfg.vals:\<newline>'' @
     concat (map (\<lambda>(i, pkgName).
               (if i > 0 then ''\<newline>'' else []) @
               yamlPkgCfg pkgName cfg (entries_of (EntriesByPkg cfg) pkgName))
             (enumerate 0 (pkgNames_of (EntriesByPkg cfg))))"
    by (simp add: yamlCfg_def Let_def)
next
  fix pkgName entries
  show "sorted (settingNames entries)" by (simp add: settingNames_def)
  show "mset (settingNames entries) = mset (map entryName entries)" by (simp add: settingNames_def)
  show "printPkgCfg pkgName cfg entries =
        ''* PACKAGE: '' @ pkgName @ ''\<newline>'' @
        concat (map (\<lambda>n. printSetting (setting cfg n)) (settingNames entries))"
    by (simp add: printPkgCfg_def)
  show "yamlPkgCfg pkgName cfg entries =
        ''    ### '' @ pkgName @ ''\<newline>'' @
        concat (map (\<lambda>n. ''    '' @ n @ '': '' @ [CHR 0x27] @ entryValue (setting cfg n) @ [CHR 0x27] @ ''\<newline>'')
                 (settingNames entries))"
    by (simp add: yamlPkgCfg_def)
next
  fix E'
  assume h: "mset (E' cfg) = mset (EntriesByPkg cfg) \<and> distinct (map fst (EntriesByPkg cfg))"
  then have "mset (map fst (E' cfg)) = mset (map fst (EntriesByPkg cfg))" by (metis mset_map)
  then have k: "pkgNames_of (E' cfg) = pkgNames_of (EntriesByPkg cfg)"
    unfolding pkgNames_of_def by (rule sort_same_mset)
  from h have "map_of (E' cfg) = map_of (EntriesByPkg cfg)" by (intro map_of_same_mset) simp_all
  then have e: "entries_of (E' cfg) = entries_of (EntriesByPkg cfg)"
    by (simp add: entries_of_def fun_eq_iff)
  show "printCfg E' targetName cfg = printCfg EntriesByPkg targetName cfg"
    by (simp add: printCfg_def Let_def k e)
  show "yamlCfg E' cfg = yamlCfg EntriesByPkg cfg"
    by (simp add: yamlCfg_def Let_def k e)
qed

theorem cfg_output_grouped_sorted_witness:
  "distinct (map fst scenario_groups) \<and>
   mset (rev scenario_groups) = mset scenario_groups \<and>
   printCfg (\<lambda>c. rev scenario_groups) ''t'' scenario_cfg = printCfg (\<lambda>c. scenario_groups) ''t'' scenario_cfg \<and>
   yamlCfg (\<lambda>c. rev scenario_groups) scenario_cfg = yamlCfg (\<lambda>c. scenario_groups) scenario_cfg \<and>
   pkgNames_of scenario_groups = [''sys/console'', ''sys/log''] \<and>
   settingNames (entries_of scenario_groups ''sys/log'') = [''LOG_CLI'', ''LOG_LEVEL''] \<and>
   snd (yamlCfg (\<lambda>c. scenario_groups) scenario_cfg) =
     ''syscfg.vals:\<newline>    ### sys/console\<newline>    CONSOLE_BAUD: '' @ [CHR 0x27] @ ''115200'' @ [CHR 0x27] @
     ''\<newline>\<newline>    ### sys/log\<newline>    LOG_CLI: '' @ [CHR 0x27] @ ''0'' @ [CHR 0x27] @
     ''\<newline>    LOG_LEVEL: '' @ [CHR 0x27] @ ''1'' @ [CHR 0x27] @ ''\<newline>''"
proof -
  have d: "distinct (map fst scenario_groups)" by (simp add: scenario_groups_def)
  have p: "mset (rev scenario_groups) = mset scenario_groups" by simp
  note th = cfg_output_grouped_sorted[of "\<lambda>c. scenario_groups" scenario_cfg "''t''"]
  note last = th[THEN conjunct2, THEN conjunct2, THEN conjunct2, THEN conjunct2, THEN conjunct2,
      THEN conjunct2, THEN spec, of "\<lambda>c. rev scenario_groups"]
  from last d p have e: "printCfg (\<lambda>c. rev scenario_groups) ''t'' scenario_cfg = printCfg (\<lambda>c. scenario_groups) ''t'' scenario_cfg"
    "yamlCfg (\<lambda>c. rev scenario_groups) scenario_cfg = yamlCfg (\<lambda>c. scenario_groups) scenario_cfg"
    by simp_all
  have k: "pkgNames_of scenario_groups = [''sys/console'', ''sys/log'']" by code_simp
  have s: "settingNames (entries_of scenario_groups ''sys/log'') = [''LOG_CLI'', ''LOG_LEVEL'']" by code_simp
  have y: "snd (yamlCfg (\<lambda>c. scenario_groups) scenario_cfg) =
     ''syscfg.vals:\<newline>    ### sys/console\<newline>    CONSOLE_BAUD: '' @ [CHR 0x27] @ ''115200'' @ [CHR 0x27] @
     ''\<newline>\<newline>    ### sys/log\<newline>    LOG_CLI: '' @ [CHR 0x27] @ ''0'' @ [CHR 0x27] @
     ''\<newline>    LOG_LEVEL: '' @ [CHR 0x27] @ ''1'' @ [CHR 0x27] @ ''\<newline>''"
    by code_simp
  from d p e k s y show ?thesis by (intro conjI)
qed

end
